theory Spec2Isabelle
  imports Main
begin


section \<open>Data model\<close>

text \<open>
  The intrusive lists of \<^verbatim>\<open>src/rtos/os-lists.cpp\<close> are embedded over an explicit store:
  every object that carries a pair of links (a list header, a waiting node, a timestamp
  node, the child links of a thread) lives at an address, and a pointer is an
  \<open>addr option\<close> with \<open>None\<close> for \<^verbatim>\<open>nullptr\<close>.  The types \<^verbatim>\<open>priority_t\<close> and
  \<^verbatim>\<open>timestamp_t\<close> are declared in headers outside the list sources; the list
  code only compares their values, so both are natural numbers here.
\<close>

type_synonym addr = nat
type_synonym thread = nat
type_synonym timer = nat
type_synonym priority_t = nat
type_synonym timestamp_t = nat

text \<open>
  What can go wrong in the C++: a dereferenced null pointer, a failed \<^verbatim>\<open>assert\<close>
  (the assertions are those of a debug build), and a read of a member through a
  \<^verbatim>\<open>static_cast\<close> to a node class the object is not (the header sentinel read as a
  waiting node).  An operation returns \<open>Inl\<close> of the error or \<open>Inr\<close> of its result;
  an operation with a loop returns an option of that, \<open>None\<close> when the loop does
  not end.
\<close>

datatype error = NullDeref | AssertFailed | BadCast

record static_double_list_links =
  prev :: "addr option"
  "next" :: "addr option"

text \<open>Modelled from the spec: the scheduler states of a thread (section 3 of the spec);
  the enumeration is declared in the thread header, outside the list sources.\<close>

datatype state_t = ready | running | waiting | terminated | destroyed

text \<open>
  The dynamic class of the object at an address: plain links (a header or the
  \<^verbatim>\<open>child_links_\<close> of a thread), a \<^verbatim>\<open>waiting_thread_node\<close> with its \<^verbatim>\<open>thread_\<close>
  reference, a \<^verbatim>\<open>timeout_thread_node\<close> with \<^verbatim>\<open>timestamp\<close> and \<^verbatim>\<open>thread\<close>, or a
  \<^verbatim>\<open>timer_node\<close> with \<^verbatim>\<open>timestamp\<close> and \<^verbatim>\<open>tmr\<close>.
\<close>

datatype object =
    Plain_Links
  | Waiting_Thread_Node thread
  | Timeout_Thread_Node timestamp_t thread
  | Timer_Node timestamp_t timer

text \<open>
  The store.  \<open>resumed\<close> records the calls of \<^verbatim>\<open>thread::resume()\<close> and \<open>fired\<close>
  the calls of \<^verbatim>\<open>action()\<close> made by \<^verbatim>\<open>check_timestamp\<close>, each with the node and
  the time stamp read from it, in call order (the place of the source's trace line).
  \<open>tmr_period\<close> and \<open>tmr_list\<close> describe the timers: the period of a periodic
  timer and the header of the clock list it uses.
  The members \<^verbatim>\<open>prio_\<close>, \<^verbatim>\<open>sched_state_\<close> and \<^verbatim>\<open>child_links_\<close> of a thread lose
  their trailing underscore, and \<^verbatim>\<open>thread_\<close> of a waiting node is \<open>node_thread\<close>.
\<close>

record state =
  lnk :: "addr \<Rightarrow> static_double_list_links"
  obj :: "addr \<Rightarrow> object"
  prio :: "thread \<Rightarrow> priority_t"
  sched_state :: "thread \<Rightarrow> state_t"
  child_links :: "thread \<Rightarrow> addr"
  tmr_period :: "timer \<Rightarrow> timestamp_t option"
  tmr_list :: "timer \<Rightarrow> addr"
  resumed :: "thread list"
  fired :: "(addr \<times> timestamp_t) list"

definition get_prev :: "state \<Rightarrow> addr \<Rightarrow> addr option" where
  "get_prev s a = prev (lnk s a)"

definition get_next :: "state \<Rightarrow> addr \<Rightarrow> addr option" where
  "get_next s a = next (lnk s a)"

definition set_prev :: "state \<Rightarrow> addr \<Rightarrow> addr option \<Rightarrow> state" where
  "set_prev s a v = s\<lparr>lnk := (lnk s)(a := (lnk s a)\<lparr>prev := v\<rparr>)\<rparr>"

definition set_next :: "state \<Rightarrow> addr \<Rightarrow> addr option \<Rightarrow> state" where
  "set_next s a v = s\<lparr>lnk := (lnk s)(a := (lnk s a)\<lparr>next := v\<rparr>)\<rparr>"

section \<open>static\_double\_list\_links and static\_double\_list\<close>

text \<open>
  \<^verbatim>\<open>static_double_list_links::unlink\<close>.  Each statement reads the store as the
  statements before it left it: \<^verbatim>\<open>prev->next = next; next->prev = prev;\<close> and then
  both own pointers are cleared.
\<close>

definition unlink :: "state \<Rightarrow> addr \<Rightarrow> error + state" where
  "unlink s this =
     (if get_next s this = None then
        (if get_prev s this = None then Inr s else Inl AssertFailed)
      else
        (case get_prev s this of
           None \<Rightarrow> Inl NullDeref
         | Some p \<Rightarrow>
             let s1 = set_next s p (get_next s this) in
             (case get_next s1 this of
                None \<Rightarrow> Inl NullDeref
              | Some n \<Rightarrow>
                  let s2 = set_prev s1 n (get_prev s1 this);
                      s3 = set_prev s2 this None
                  in Inr (set_next s3 this None))))"

text \<open>\<^verbatim>\<open>static_double_list::clear\<close>: the header links to itself.\<close>

definition clear :: "state \<Rightarrow> addr \<Rightarrow> state" where
  "clear s h = set_prev (set_next s h (Some h)) h (Some h)"

text \<open>Modelled from the spec: \<^verbatim>\<open>empty()\<close> is an inline member of the list header
  file, which is not among the sources.  Section 4.2: true iff \<^verbatim>\<open>header.next\<close> is
  absent or equals \<^verbatim>\<open>&header\<close>.\<close>

definition empty_list :: "state \<Rightarrow> addr \<Rightarrow> bool" where
  "empty_list s h = (get_next s h = None \<or> get_next s h = Some h)"

text \<open>Modelled from the spec: \<^verbatim>\<open>head()\<close>, an inline member of the same header file.
  Section 4.2: returns \<^verbatim>\<open>header.next\<close>.\<close>

definition head :: "state \<Rightarrow> addr \<Rightarrow> addr option" where
  "head s h = get_next s h"

text \<open>Modelled from the spec: \<^verbatim>\<open>tail()\<close>, an inline member of the same header file.
  Section 4.2: returns \<^verbatim>\<open>header.prev\<close>.\<close>

definition tail :: "state \<Rightarrow> addr \<Rightarrow> addr option" where
  "tail s h = get_prev s h"

text \<open>
  \<^verbatim>\<open>static_double_list::insert_after\<close>, with its three assertions and its four
  assignments in source order; \<^verbatim>\<open>after->next\<close> is read again for the third one.
\<close>

definition insert_after :: "state \<Rightarrow> addr \<Rightarrow> addr option \<Rightarrow> error + state" where
  "insert_after s node after =
     (if get_prev s node \<noteq> None then Inl AssertFailed
      else if get_next s node \<noteq> None then Inl AssertFailed
      else
        (case after of
           None \<Rightarrow> Inl NullDeref
         | Some a \<Rightarrow>
             if get_next s a = None then Inl AssertFailed
             else
               let s1 = set_prev s node (Some a);
                   s2 = set_next s1 node (get_next s1 a)
               in (case get_next s2 a of
                     None \<Rightarrow> Inl NullDeref
                   | Some an \<Rightarrow>
                       let s3 = set_prev s2 an (Some node)
                       in Inr (set_next s3 a (Some node)))))"

section \<open>Thread hierarchy lists\<close>

definition top_threads_list_link :: "state \<Rightarrow> addr \<Rightarrow> thread \<Rightarrow> error + state" where
  "top_threads_list_link s0 h thread =
     (let s = (if get_prev s0 h = None then clear s0 h else s0)
      in insert_after s (child_links s thread) (tail s h))"

definition thread_children_list_link :: "state \<Rightarrow> addr \<Rightarrow> thread \<Rightarrow> error + state" where
  "thread_children_list_link s h thread =
     insert_after s (child_links s thread) (tail s h)"

section \<open>Priority ordered lists\<close>

text \<open>Reading \<^verbatim>\<open>p->thread_\<close> through a pointer cast to \<^verbatim>\<open>waiting_thread_node*\<close>.\<close>

definition node_thread :: "state \<Rightarrow> addr option \<Rightarrow> error + thread" where
  "node_thread s p =
     (case p of
        None \<Rightarrow> Inl NullDeref
      | Some a \<Rightarrow>
          (case obj s a of
             Waiting_Thread_Node t \<Rightarrow> Inr t
           | _ \<Rightarrow> Inl BadCast))"

text \<open>Modelled from the spec: \<^verbatim>\<open>thread::sched_prio()\<close> is a member of the thread
  class, outside the list sources; the source calls it only an accessor and the spec
  gives a thread one priority field.\<close>

definition sched_prio :: "state \<Rightarrow> thread \<Rightarrow> priority_t" where
  "sched_prio s t = prio s t"

text \<open>Modelled from the spec: \<^verbatim>\<open>thread::resume()\<close> belongs to the thread module and
  is outside the list sources; the lists only call it, and the call is recorded.\<close>

definition resume :: "state \<Rightarrow> thread \<Rightarrow> state" where
  "resume s t = s\<lparr>resumed := resumed s @ [t]\<rparr>"

text \<open>
  The loop \<^verbatim>\<open>while (cond (after)) after = after->prev;\<close> of the three ordered
  lists.  The condition reads a member of \<^verbatim>\<open>after\<close> and can fail; a walk that never
  stops has no result.
\<close>

partial_function (option) while_prev ::
  "state \<Rightarrow> (addr option \<Rightarrow> error + bool) \<Rightarrow> addr option \<Rightarrow> (error + addr option) option"
where
  "while_prev s cond after =
     (case cond after of
        Inl e \<Rightarrow> Some (Inl e)
      | Inr c \<Rightarrow>
          if c then
            (case after of
               None \<Rightarrow> Some (Inl NullDeref)
             | Some a \<Rightarrow> while_prev s cond (get_prev s a))
          else Some (Inr after))"

text \<open>\<^verbatim>\<open>p->thread_.prio_\<close> and \<^verbatim>\<open>p->thread_.sched_prio ()\<close>.\<close>

definition node_prio :: "state \<Rightarrow> addr option \<Rightarrow> error + priority_t" where
  "node_prio s p = (case node_thread s p of Inl e \<Rightarrow> Inl e | Inr t \<Rightarrow> Inr (prio s t))"

definition node_sched_prio :: "state \<Rightarrow> addr option \<Rightarrow> error + priority_t" where
  "node_sched_prio s p = (case node_thread s p of Inl e \<Rightarrow> Inl e | Inr t \<Rightarrow> Inr (sched_prio s t))"

text \<open>\<^verbatim>\<open>ready_threads_list::link\<close>.\<close>

definition ready_threads_list_link :: "state \<Rightarrow> addr \<Rightarrow> addr \<Rightarrow> (error + state) option" where
  "ready_threads_list_link s0 h node =
     (let s = (if get_prev s0 h = None then clear s0 h else s0) in
      case node_prio s (Some node) of
        Inl e \<Rightarrow> Some (Inl e)
      | Inr p \<Rightarrow>
          let after = tail s h;
              pos =
                (case (if empty_list s h then Inr True
                       else (case node_prio s after of
                               Inl e \<Rightarrow> Inl e | Inr q \<Rightarrow> Inr (p \<le> q))) of
                   Inl e \<Rightarrow> Some (Inl e)
                 | Inr True \<Rightarrow> Some (Inr after)
                 | Inr False \<Rightarrow>
                     (case node_prio s (head s h) of
                        Inl e \<Rightarrow> Some (Inl e)
                      | Inr q \<Rightarrow>
                          if p > q then Some (Inr (Some h))
                          else while_prev s
                                 (\<lambda>a. case node_prio s a of
                                         Inl e \<Rightarrow> Inl e | Inr q \<Rightarrow> Inr (p > q))
                                 after))
          in (case pos of
                None \<Rightarrow> None
              | Some (Inl e) \<Rightarrow> Some (Inl e)
              | Some (Inr a) \<Rightarrow>
                  (case insert_after s node a of
                     Inl e \<Rightarrow> Some (Inl e)
                   | Inr s1 \<Rightarrow>
                       (case node_thread s1 (Some node) of
                          Inl e \<Rightarrow> Some (Inl e)
                        | Inr t \<Rightarrow>
                            Some (Inr (s1\<lparr>sched_state := (sched_state s1)(t := ready)\<rparr>))))))"

text \<open>\<^verbatim>\<open>ready_threads_list::unlink_head\<close>; the result is the new store and the thread.\<close>

definition unlink_head :: "state \<Rightarrow> addr \<Rightarrow> error + state \<times> thread" where
  "unlink_head s h =
     (if empty_list s h then Inl AssertFailed
      else
        (case node_thread s (head s h) of
           Inl e \<Rightarrow> Inl e
         | Inr thread \<Rightarrow>
             (case head s h of
                None \<Rightarrow> Inl NullDeref
              | Some first \<Rightarrow>
                  (case unlink s first of
                     Inl e \<Rightarrow> Inl e
                   | Inr s1 \<Rightarrow>
                       Inr (s1\<lparr>sched_state := (sched_state s1)(thread := running)\<rparr>,
                            thread)))))"

text \<open>\<^verbatim>\<open>waiting_threads_list::link\<close>: no test of a zero header.\<close>

definition waiting_threads_list_link :: "state \<Rightarrow> addr \<Rightarrow> addr \<Rightarrow> (error + state) option" where
  "waiting_threads_list_link s h node =
     (case node_sched_prio s (Some node) of
        Inl e \<Rightarrow> Some (Inl e)
      | Inr p \<Rightarrow>
          let after = tail s h;
              pos =
                (case (if empty_list s h then Inr True
                       else (case node_sched_prio s after of
                               Inl e \<Rightarrow> Inl e | Inr q \<Rightarrow> Inr (p \<le> q))) of
                   Inl e \<Rightarrow> Some (Inl e)
                 | Inr True \<Rightarrow> Some (Inr after)
                 | Inr False \<Rightarrow>
                     (case node_sched_prio s (head s h) of
                        Inl e \<Rightarrow> Some (Inl e)
                      | Inr q \<Rightarrow>
                          if p > q then Some (Inr (Some h))
                          else while_prev s
                                 (\<lambda>a. case node_sched_prio s a of
                                         Inl e \<Rightarrow> Inl e | Inr q \<Rightarrow> Inr (p > q))
                                 after))
          in (case pos of
                None \<Rightarrow> None
              | Some (Inl e) \<Rightarrow> Some (Inl e)
              | Some (Inr a) \<Rightarrow>
                  (case insert_after s node a of
                     Inl e \<Rightarrow> Some (Inl e)
                   | Inr s1 \<Rightarrow> Some (Inr s1))))"

text \<open>\<^verbatim>\<open>waiting_threads_list::resume_one\<close>.  The accessor \<^verbatim>\<open>sched_state ()\<close> of the
  thread reads the member \<^verbatim>\<open>sched_state_\<close>.\<close>

definition resume_one :: "state \<Rightarrow> addr \<Rightarrow> error + state" where
  "resume_one s h =
     (if empty_list s h then Inr s
      else
        (case node_thread s (head s h) of
           Inl e \<Rightarrow> Inl e
         | Inr thread \<Rightarrow>
             (case head s h of
                None \<Rightarrow> Inl NullDeref
              | Some first \<Rightarrow>
                  (case unlink s first of
                     Inl e \<Rightarrow> Inl e
                   | Inr s1 \<Rightarrow>
                       if sched_state s1 thread \<noteq> destroyed then Inr (resume s1 thread)
                       else Inr s1))))"

text \<open>\<^verbatim>\<open>terminated_threads_list::link\<close>.\<close>

definition terminated_threads_list_link :: "state \<Rightarrow> addr \<Rightarrow> addr \<Rightarrow> error + state" where
  "terminated_threads_list_link s0 h node =
     (let s = (if get_prev s0 h = None then clear s0 h else s0)
      in insert_after s node (tail s h))"

section \<open>Timestamp nodes and the clock list\<close>

text \<open>Reading \<^verbatim>\<open>p->timestamp\<close>, a member of the base class of both node variants.\<close>

definition timestamp :: "state \<Rightarrow> addr option \<Rightarrow> error + timestamp_t" where
  "timestamp s p =
     (case p of
        None \<Rightarrow> Inl NullDeref
      | Some a \<Rightarrow>
          (case obj s a of
             Timeout_Thread_Node ts th \<Rightarrow> Inr ts
           | Timer_Node ts tm \<Rightarrow> Inr ts
           | _ \<Rightarrow> Inl BadCast))"

text \<open>\<^verbatim>\<open>clock_timestamps_list::link\<close>.\<close>

definition clock_timestamps_list_link :: "state \<Rightarrow> addr \<Rightarrow> addr \<Rightarrow> (error + state) option" where
  "clock_timestamps_list_link s h node =
     (case timestamp s (Some node) of
        Inl e \<Rightarrow> Some (Inl e)
      | Inr ts \<Rightarrow>
          let after = tail s h;
              pos =
                (case (if empty_list s h then Inr True
                       else (case timestamp s after of
                               Inl e \<Rightarrow> Inl e | Inr q \<Rightarrow> Inr (ts \<ge> q))) of
                   Inl e \<Rightarrow> Some (Inl e)
                 | Inr True \<Rightarrow> Some (Inr after)
                 | Inr False \<Rightarrow>
                     (case timestamp s (head s h) of
                        Inl e \<Rightarrow> Some (Inl e)
                      | Inr q \<Rightarrow>
                          if ts < q then Some (Inr (Some h))
                          else while_prev s
                                 (\<lambda>a. case timestamp s a of
                                         Inl e \<Rightarrow> Inl e | Inr q \<Rightarrow> Inr (ts < q))
                                 after))
          in (case pos of
                None \<Rightarrow> None
              | Some (Inl e) \<Rightarrow> Some (Inl e)
              | Some (Inr a) \<Rightarrow>
                  (case insert_after s node a of
                     Inl e \<Rightarrow> Some (Inl e)
                   | Inr s1 \<Rightarrow> Some (Inr s1))))"

text \<open>\<^verbatim>\<open>timeout_thread_node::action\<close>, for the node \<open>this\<close> whose thread is \<open>th\<close>.\<close>

definition timeout_thread_node_action :: "state \<Rightarrow> addr \<Rightarrow> thread \<Rightarrow> error + state" where
  "timeout_thread_node_action s this th =
     (case unlink s this of
        Inl e \<Rightarrow> Inl e
      | Inr s1 \<Rightarrow>
          if sched_state s1 th \<noteq> destroyed then Inr (resume s1 th) else Inr s1)"

text \<open>Modelled from the spec: the interrupt service routine of a timer belongs to the
  timer module, outside the list sources.  Section 3: it may, for a periodic timer,
  re-enqueue the node one period later; scenario S4 fires a node of period 50 at
  100, 150, 200 and 250, so the new time stamp is the node's own time stamp plus the
  period.  A timer without a period leaves the lists alone.\<close>

definition interrupt_service_routine :: "state \<Rightarrow> timer \<Rightarrow> addr \<Rightarrow> (error + state) option" where
  "interrupt_service_routine s tm node =
     (case tmr_period s tm of
        None \<Rightarrow> Some (Inr s)
      | Some period \<Rightarrow>
          (case obj s node of
             Timer_Node ts tm' \<Rightarrow>
               clock_timestamps_list_link
                 (s\<lparr>obj := (obj s)(node := Timer_Node (ts + period) tm')\<rparr>) (tmr_list s tm) node
           | _ \<Rightarrow> Some (Inl BadCast)))"

text \<open>\<^verbatim>\<open>timer_node::action\<close>, for the node \<open>this\<close> whose timer is \<open>tm\<close>.\<close>

definition timer_node_action :: "state \<Rightarrow> addr \<Rightarrow> timer \<Rightarrow> (error + state) option" where
  "timer_node_action s this tm =
     (case unlink s this of
        Inl e \<Rightarrow> Some (Inl e)
      | Inr s1 \<Rightarrow> interrupt_service_routine s1 tm this)"

text \<open>The virtual call \<^verbatim>\<open>action ()\<close>, dispatched on the class of the node.\<close>

definition action :: "state \<Rightarrow> addr \<Rightarrow> (error + state) option" where
  "action s this =
     (case obj s this of
        Timeout_Thread_Node ts th \<Rightarrow> Some (timeout_thread_node_action s this th)
      | Timer_Node ts tm \<Rightarrow> timer_node_action s this tm
      | _ \<Rightarrow> Some (Inl BadCast))"

text \<open>
  \<^verbatim>\<open>clock_timestamps_list::check_timestamp\<close>: the \<^verbatim>\<open>for (;;)\<close> loop, which reads the
  head again on every round, and the test of a zero header before it.
\<close>

partial_function (option) check_timestamp_loop ::
  "state \<Rightarrow> addr \<Rightarrow> timestamp_t \<Rightarrow> (error + state) option"
where
  "check_timestamp_loop s h now =
     (if empty_list s h then Some (Inr s)
      else
        (case timestamp s (head s h) of
           Inl e \<Rightarrow> Some (Inl e)
         | Inr head_ts \<Rightarrow>
             if now \<ge> head_ts then
               (case head s h of
                  None \<Rightarrow> Some (Inl NullDeref)
                | Some first \<Rightarrow>
                    (case action (s\<lparr>fired := fired s @ [(first, head_ts)]\<rparr>) first of
                       None \<Rightarrow> None
                     | Some (Inl e) \<Rightarrow> Some (Inl e)
                     | Some (Inr s1) \<Rightarrow> check_timestamp_loop s1 h now))
             else Some (Inr s)))"

definition check_timestamp :: "state \<Rightarrow> addr \<Rightarrow> timestamp_t \<Rightarrow> (error + state) option" where
  "check_timestamp s h now =
     (if get_next s h = None then Some (Inr s) else check_timestamp_loop s h now)"

section \<open>The list a header stands for\<close>

text \<open>
  \<open>dlist s h xs\<close>: in the store \<open>s\<close> the header \<open>h\<close> and the nodes \<open>xs\<close>, in this
  order, form one ring: each is the \<^verbatim>\<open>next\<close> of the one before and the \<^verbatim>\<open>prev\<close>
  of the one after, the header closing the ring, and no object occurs twice.
\<close>

definition link_ok :: "state \<Rightarrow> addr \<Rightarrow> addr \<Rightarrow> bool" where
  "link_ok s a b = (get_next s a = Some b \<and> get_prev s b = Some a)"

definition dlist :: "state \<Rightarrow> addr \<Rightarrow> addr list \<Rightarrow> bool" where
  "dlist s h xs = (distinct (h # xs) \<and> successively (link_ok s) (h # xs @ [h]))"

definition detached :: "state \<Rightarrow> addr \<Rightarrow> bool" where
  "detached s n = (get_prev s n = None \<and> get_next s n = None)"

text \<open>Following \<^verbatim>\<open>next\<close>, or \<^verbatim>\<open>prev\<close>, for \<open>k\<close> steps from an object; a null pointer
  on the way ends the walk.\<close>

fun follow_next :: "state \<Rightarrow> nat \<Rightarrow> addr \<Rightarrow> addr option" where
  "follow_next s 0 a = Some a"
| "follow_next s (Suc k) a =
     (case get_next s a of None \<Rightarrow> None | Some b \<Rightarrow> follow_next s k b)"

fun follow_prev :: "state \<Rightarrow> nat \<Rightarrow> addr \<Rightarrow> addr option" where
  "follow_prev s 0 a = Some a"
| "follow_prev s (Suc k) a =
     (case get_prev s a of None \<Rightarrow> None | Some b \<Rightarrow> follow_prev s k b)"

text \<open>What the header of a static list stands for: a ring, or, while both header
  pointers are still null, the empty list.\<close>

definition static_list :: "state \<Rightarrow> addr \<Rightarrow> addr list \<Rightarrow> bool" where
  "static_list s h xs =
     (dlist s h xs \<or> (xs = [] \<and> get_prev s h = None \<and> get_next s h = None))"

section \<open>Example stores\<close>

text \<open>
  \<open>bss\<close> is the store before any constructor has run: every pointer is null.
  In \<open>ring2\<close> the header at address 0 holds the two nodes at 1 and 2, and a second
  header at 3 holds the node at 4.  In \<open>one_waiter\<close> the header at 0 holds the
  waiting node at 1 of thread 7, whose state has been set to \<open>destroyed\<close>.
  \<open>static_boot\<close> is \<open>bss\<close> with a waiting node of thread 5 at address 2.
  \<open>waiters6\<close> is scenario S1: a constructed wait list at 0 and the detached waiting
  nodes 1 to 6 of the threads 1 to 6, of priorities 5, 9, 5, 7, 9 and 1.
  \<open>ready4\<close> is scenario S2: the zero header of the ready list at 0 and the detached
  nodes 11 to 14 of the threads A = 1, B = 2, C = 3 and D = 4, of priorities 3, 7, 7
  and 5.
  \<open>timeouts4\<close> is scenario S3: a constructed clock list at 0 and the detached
  timeout nodes 1 to 4 of the threads 1 to 4, with time stamps 100, 50, 75 and 50.
  \<open>periodic1\<close> is scenario S4: the clock list at 0 holds the node 1 of timer 9, with
  time stamp 100; the timer has period 50 and enqueues on the list at 0.
\<close>

definition bss :: state where
  "bss = \<lparr>lnk = (\<lambda>a. \<lparr>prev = None, next = None\<rparr>), obj = (\<lambda>a. Plain_Links),
           prio = (\<lambda>t. 0), sched_state = (\<lambda>t. waiting), child_links = (\<lambda>t. t),
           tmr_period = (\<lambda>tm. None), tmr_list = (\<lambda>tm. 0), resumed = [], fired = []\<rparr>"

definition ring2 :: state where
  "ring2 = bss\<lparr>lnk := (\<lambda>a. \<lparr>prev = None, next = None\<rparr>)
             (0 := \<lparr>prev = Some 2, next = Some 1\<rparr>,
              1 := \<lparr>prev = Some 0, next = Some 2\<rparr>,
              2 := \<lparr>prev = Some 1, next = Some 0\<rparr>,
              3 := \<lparr>prev = Some 4, next = Some 4\<rparr>,
              4 := \<lparr>prev = Some 3, next = Some 3\<rparr>)\<rparr>"

definition one_waiter :: state where
  "one_waiter = bss\<lparr>lnk := (\<lambda>a. \<lparr>prev = None, next = None\<rparr>)
                  (0 := \<lparr>prev = Some 1, next = Some 1\<rparr>,
                   1 := \<lparr>prev = Some 0, next = Some 0\<rparr>),
                obj := (\<lambda>a. Plain_Links)(1 := Waiting_Thread_Node 7),
                sched_state := (\<lambda>t. waiting)(7 := destroyed)\<rparr>"

definition static_boot :: state where
  "static_boot = bss\<lparr>obj := (\<lambda>a. Plain_Links)(2 := Waiting_Thread_Node 5)\<rparr>"

definition waiters6 :: state where
  "waiters6 = bss\<lparr>lnk := (\<lambda>a. \<lparr>prev = None, next = None\<rparr>)(0 := \<lparr>prev = Some 0, next = Some 0\<rparr>),
                obj := (\<lambda>a. if 1 \<le> a \<and> a \<le> 6 then Waiting_Thread_Node a else Plain_Links),
                prio := (\<lambda>t. 0)(1 := 5, 2 := 9, 3 := 5, 4 := 7, 5 := 9, 6 := 1)\<rparr>"

definition ready4 :: state where
  "ready4 = bss\<lparr>obj := (\<lambda>a. if 11 \<le> a \<and> a \<le> 14 then Waiting_Thread_Node (a - 10) else Plain_Links),
              prio := (\<lambda>t. 0)(1 := 3, 2 := 7, 3 := 7, 4 := 5)\<rparr>"

definition timeouts4 :: state where
  "timeouts4 = bss\<lparr>lnk := (\<lambda>a. \<lparr>prev = None, next = None\<rparr>)(0 := \<lparr>prev = Some 0, next = Some 0\<rparr>),
                 obj := (\<lambda>a. Plain_Links)
                   (1 := Timeout_Thread_Node 100 1, 2 := Timeout_Thread_Node 50 2,
                    3 := Timeout_Thread_Node 75 3, 4 := Timeout_Thread_Node 50 4)\<rparr>"

definition periodic1 :: state where
  "periodic1 = bss\<lparr>lnk := (\<lambda>a. \<lparr>prev = None, next = None\<rparr>)
                   (0 := \<lparr>prev = Some 1, next = Some 1\<rparr>,
                    1 := \<lparr>prev = Some 0, next = Some 0\<rparr>),
                 obj := (\<lambda>a. Plain_Links)(1 := Timer_Node 100 9),
                 tmr_period := (\<lambda>tm. None)(9 := Some 50)\<rparr>"

section \<open>Ordered insertion\<close>

text \<open>
  The common shape of the three ordered \<^verbatim>\<open>link\<close> functions, for the proofs: \<open>key\<close>
  reads the ordering member through a pointer, and \<open>before k q\<close> is the test of the
  source that sends a node of key \<open>k\<close> in front of a node of key \<open>q\<close>
  (\<^verbatim>\<open>prio > q\<close> for priorities, \<^verbatim>\<open>timestamp < q\<close> for time stamps).
\<close>

definition ordered_link ::
  "(addr option \<Rightarrow> error + nat) \<Rightarrow> (nat \<Rightarrow> nat \<Rightarrow> bool) \<Rightarrow> state \<Rightarrow> addr \<Rightarrow> addr \<Rightarrow>
   (error + state) option"
where
  "ordered_link key before s h node =
     (case key (Some node) of
        Inl e \<Rightarrow> Some (Inl e)
      | Inr k \<Rightarrow>
          let after = tail s h;
              pos =
                (case (if empty_list s h then Inr True
                       else (case key after of
                               Inl e \<Rightarrow> Inl e | Inr q \<Rightarrow> Inr (\<not> before k q))) of
                   Inl e \<Rightarrow> Some (Inl e)
                 | Inr True \<Rightarrow> Some (Inr after)
                 | Inr False \<Rightarrow>
                     (case key (head s h) of
                        Inl e \<Rightarrow> Some (Inl e)
                      | Inr q \<Rightarrow>
                          if before k q then Some (Inr (Some h))
                          else while_prev s
                                 (\<lambda>a. case key a of
                                         Inl e \<Rightarrow> Inl e | Inr q \<Rightarrow> Inr (before k q))
                                 after))
          in (case pos of
                None \<Rightarrow> None
              | Some (Inl e) \<Rightarrow> Some (Inl e)
              | Some (Inr a) \<Rightarrow>
                  (case insert_after s node a of
                     Inl e \<Rightarrow> Some (Inl e)
                   | Inr s1 \<Rightarrow> Some (Inr s1))))"

text \<open>
  The insertion on the list of nodes.  \<open>walk_insert stop n rs\<close> takes the list
  tail first: it walks from the tail to the first node that satisfies \<open>stop\<close> and
  puts \<open>n\<close> behind it (in front of it in the tail-first list).
\<close>

fun walk_insert :: "(addr \<Rightarrow> bool) \<Rightarrow> addr \<Rightarrow> addr list \<Rightarrow> addr list" where
  "walk_insert stop n [] = [n]"
| "walk_insert stop n (x # rs) = (if stop x then n # x # rs else x # walk_insert stop n rs)"

definition ordered_insert ::
  "(nat \<Rightarrow> nat \<Rightarrow> bool) \<Rightarrow> (addr \<Rightarrow> nat) \<Rightarrow> addr \<Rightarrow> addr list \<Rightarrow> addr list"
where
  "ordered_insert before kf n xs =
     (if xs = [] \<or> \<not> before (kf n) (kf (last xs)) then xs @ [n]
      else if before (kf n) (kf (hd xs)) then n # xs
      else rev (walk_insert (\<lambda>x. \<not> before (kf n) (kf x)) n (rev xs)))"

text \<open>
  Section 4.4 of the spec in its own words, for a list \<open>xs\<close> from head to tail and
  the priority \<open>pr\<close> of each node: insert at the tail if the list is empty or
  \<open>p \<le>\<close> the priority of the tail; else at the head if \<open>p >\<close> the priority of the
  head; otherwise walk from the tail backward to the first node whose priority is
  \<open>\<ge> p\<close> and insert after it.
\<close>

definition priority_insert :: "(addr \<Rightarrow> priority_t) \<Rightarrow> addr \<Rightarrow> addr list \<Rightarrow> addr list" where
  "priority_insert pr n xs =
     (if xs = [] \<or> pr n \<le> pr (last xs) then xs @ [n]
      else if pr n > pr (hd xs) then n # xs
      else rev (walk_insert (\<lambda>x. pr x \<ge> pr n) n (rev xs)))"

text \<open>
  Section 4.7 of the spec in its own words: append at the tail if the list is empty or
  \<open>t \<ge>\<close> the time stamp of the tail; else prepend at the head if \<open>t <\<close> the time
  stamp of the head; otherwise walk from the tail backward to the first node whose
  time stamp is \<open>\<le> t\<close> and insert after it.
\<close>

definition timestamp_insert :: "(addr \<Rightarrow> timestamp_t) \<Rightarrow> addr \<Rightarrow> addr list \<Rightarrow> addr list" where
  "timestamp_insert ts n xs =
     (if xs = [] \<or> ts n \<ge> ts (last xs) then xs @ [n]
      else if ts n < ts (hd xs) then n # xs
      else rev (walk_insert (\<lambda>x. ts x \<le> ts n) n (rev xs)))"

text \<open>The priority and the time stamp a node carries in a store (0 for an object
  that is no such node).\<close>

definition prio_of :: "state \<Rightarrow> addr \<Rightarrow> priority_t" where
  "prio_of s n = (case obj s n of Waiting_Thread_Node t \<Rightarrow> prio s t | _ \<Rightarrow> 0)"

definition timestamp_of :: "state \<Rightarrow> addr \<Rightarrow> timestamp_t" where
  "timestamp_of s n =
     (case obj s n of Timeout_Thread_Node ts th \<Rightarrow> ts | Timer_Node ts tm \<Rightarrow> ts | _ \<Rightarrow> 0)"

definition is_waiting_node :: "state \<Rightarrow> addr \<Rightarrow> bool" where
  "is_waiting_node s n = (case obj s n of Waiting_Thread_Node t \<Rightarrow> True | _ \<Rightarrow> False)"

definition is_timestamp_node :: "state \<Rightarrow> addr \<Rightarrow> bool" where
  "is_timestamp_node s n =
     (case obj s n of
        Timeout_Thread_Node ts th \<Rightarrow> True
      | Timer_Node ts tm \<Rightarrow> True
      | _ \<Rightarrow> False)"

text \<open>A timestamp node whose action does not enqueue it again: a timeout node, or the
  node of a timer without a period.\<close>

definition is_one_shot :: "state \<Rightarrow> addr \<Rightarrow> bool" where
  "is_one_shot s n =
     (case obj s n of
        Timeout_Thread_Node ts th \<Rightarrow> True
      | Timer_Node ts tm \<Rightarrow> tmr_period s tm = None
      | _ \<Rightarrow> False)"

text \<open>A sequence of \<^verbatim>\<open>link\<close> calls on one list, one node after the other.\<close>

fun link_all ::
  "(state \<Rightarrow> addr \<Rightarrow> addr \<Rightarrow> (error + state) option) \<Rightarrow> state \<Rightarrow> addr \<Rightarrow> addr list \<Rightarrow>
   (error + state) option"
where
  "link_all link s h [] = Some (Inr s)"
| "link_all link s h (n # ns) =
     (case link s h n of
        None \<Rightarrow> None
      | Some (Inl e) \<Rightarrow> Some (Inl e)
      | Some (Inr s1) \<Rightarrow> link_all link s1 h ns)"

text \<open>\<open>same_data s s'\<close>: the stores differ at most in the links.\<close>

definition same_data :: "state \<Rightarrow> state \<Rightarrow> bool" where
  "same_data s s' =
     (obj s' = obj s \<and> prio s' = prio s \<and> sched_state s' = sched_state s \<and>
      child_links s' = child_links s \<and> tmr_period s' = tmr_period s \<and>
      tmr_list s' = tmr_list s \<and> resumed s' = resumed s \<and> fired s' = fired s)"

section \<open>The store under the list operations\<close>

lemma get_set_simps [simp]:
  "get_next (set_next s a v) b = (if b = a then v else get_next s b)"
  "get_next (set_prev s a v) b = get_next s b"
  "get_prev (set_prev s a v) b = (if b = a then v else get_prev s b)"
  "get_prev (set_next s a v) b = get_prev s b"
  by (simp_all add: get_next_def get_prev_def set_next_def set_prev_def)

lemma set_frame_simps [simp]:
  "obj (set_next s a v) = obj s" "obj (set_prev s a v) = obj s"
  "prio (set_next s a v) = prio s" "prio (set_prev s a v) = prio s"
  "sched_state (set_next s a v) = sched_state s" "sched_state (set_prev s a v) = sched_state s"
  "child_links (set_next s a v) = child_links s" "child_links (set_prev s a v) = child_links s"
  "tmr_period (set_next s a v) = tmr_period s" "tmr_period (set_prev s a v) = tmr_period s"
  "tmr_list (set_next s a v) = tmr_list s" "tmr_list (set_prev s a v) = tmr_list s"
  "resumed (set_next s a v) = resumed s" "resumed (set_prev s a v) = resumed s"
  "fired (set_next s a v) = fired s" "fired (set_prev s a v) = fired s"
  by (simp_all add: set_next_def set_prev_def)

lemma link_ok_frame:
  "successively (link_ok s) cs \<Longrightarrow>
   \<forall>x\<in>set (butlast cs). get_next s' x = get_next s x \<Longrightarrow>
   \<forall>y\<in>set (tl cs). get_prev s' y = get_prev s y \<Longrightarrow>
   successively (link_ok s') cs"
proof (induction cs rule: induct_list012)
  case (3 x y zs)
  then show ?case by (auto simp: link_ok_def)
qed simp_all

lemma insert_after_eq:
  assumes "get_prev s n = None" "get_next s n = None" "get_next s a = Some an"
  shows "insert_after s n (Some a) =
         Inr (set_next (set_prev (set_next (set_prev s n (Some a)) n (Some an)) an (Some n)) a (Some n))"
proof -
  from assms have "n \<noteq> a" by auto
  with assms show ?thesis by (simp add: insert_after_def Let_def)
qed

lemma dlist_split:
  "dlist s h (ys @ zs) \<longleftrightarrow>
     distinct (h # ys @ zs) \<and> successively (link_ok s) (h # ys) \<and>
     successively (link_ok s) (zs @ [h]) \<and> link_ok s (last (h # ys)) (hd (zs @ [h]))"
  unfolding dlist_def
  using successively_append_iff [of "link_ok s" "h # ys" "zs @ [h]"] by auto

lemma last_notin_butlast: "distinct xs \<Longrightarrow> xs \<noteq> [] \<Longrightarrow> last xs \<notin> set (butlast xs)"
  by (induction xs) auto

lemma hd_notin_tl: "distinct xs \<Longrightarrow> xs \<noteq> [] \<Longrightarrow> hd xs \<notin> set (tl xs)"
  by (cases xs) auto

lemma insert_after_dlist:
  assumes dl: "dlist s h (ys @ zs)" and det: "detached s n" and fresh: "n \<notin> set (h # ys @ zs)"
  shows "\<exists>s'. insert_after s n (Some (last (h # ys))) = Inr s' \<and> dlist s' h (ys @ n # zs)
           \<and> obj s' = obj s \<and> prio s' = prio s \<and> sched_state s' = sched_state s
           \<and> child_links s' = child_links s \<and> tmr_period s' = tmr_period s \<and> tmr_list s' = tmr_list s
           \<and> resumed s' = resumed s \<and> fired s' = fired s
           \<and> (\<forall>x. x \<notin> set (h # ys @ zs) \<and> x \<noteq> n \<longrightarrow> lnk s' x = lnk s x)"
proof -
  define a an where "a = last (h # ys)" and "an = hd (zs @ [h])"
  from dl have d: "distinct (h # ys @ zs)" and s1: "successively (link_ok s) (h # ys)"
    and s2: "successively (link_ok s) (zs @ [h])" and l: "link_ok s a an"
    by (simp_all add: dlist_split a_def an_def)
  define s' where
    "s' = set_next (set_prev (set_next (set_prev s n (Some a)) n (Some an)) an (Some n)) a (Some n)"
  from det l have eq: "insert_after s n (Some a) = Inr s'"
    unfolding s'_def by (intro insert_after_eq) (simp_all add: detached_def link_ok_def)
  have a_in: "a \<in> set (h # ys)" unfolding a_def an_def by (rule last_in_set) simp
  have an_in: "an \<in> set (zs @ [h])" unfolding a_def an_def by (rule hd_in_set) simp
  from fresh a_in an_in have na: "n \<noteq> a" and nan: "n \<noteq> an" by auto
  have a1: "a \<notin> set (butlast (h # ys))"
    unfolding a_def an_def using d by (intro last_notin_butlast) simp_all
  have a2: "a \<notin> set zs" using a_in d by auto
  have an1: "an \<notin> set (tl (zs @ [h]))"
    unfolding a_def an_def using d by (intro hd_notin_tl) simp_all
  have an2: "an \<notin> set ys" using an_in d by auto
  have nx: "get_next s' x = (if x = a then Some n else if x = n then Some an else get_next s x)" for x
    by (simp add: s'_def)
  have pv: "get_prev s' x = (if x = an then Some n else if x = n then Some a else get_prev s x)" for x
    using nan by (simp add: s'_def)
  have f1: "successively (link_ok s') (h # ys)"
  proof (rule link_ok_frame [OF s1])
    show "\<forall>x\<in>set (butlast (h # ys)). get_next s' x = get_next s x"
      using a1 fresh by (auto simp: nx dest: in_set_butlastD)
    show "\<forall>y\<in>set (tl (h # ys)). get_prev s' y = get_prev s y"
      using an2 fresh by (auto simp: pv)
  qed
  have f2: "successively (link_ok s') (zs @ [h])"
  proof (rule link_ok_frame [OF s2])
    show "\<forall>x\<in>set (butlast (zs @ [h])). get_next s' x = get_next s x"
      using a2 fresh by (auto simp: nx)
    show "\<forall>y\<in>set (tl (zs @ [h])). get_prev s' y = get_prev s y"
      using an1 fresh by (auto simp: pv dest: list.set_sel(2) [rotated])
  qed
  have l1: "link_ok s' a n" using na nan by (simp add: link_ok_def nx pv)
  have l2: "link_ok s' n an" using na nan by (simp add: link_ok_def nx pv)
  have "successively (link_ok s') ((n # zs) @ [h])"
    using f2 l2 by (simp add: successively_Cons a_def an_def)
  with f1 l1 d fresh have "dlist s' h (ys @ n # zs)"
    unfolding dlist_split by (simp add: a_def an_def)
  moreover have "\<forall>x. x \<notin> set (h # ys @ zs) \<and> x \<noteq> n \<longrightarrow> lnk s' x = lnk s x"
    using a_in an_in by (auto simp: s'_def set_next_def set_prev_def)
  ultimately show ?thesis using eq by (auto simp: a_def an_def s'_def)
qed

lemma unlink_eq:
  assumes "get_next s n = Some nx" "get_prev s n = Some pv" "pv \<noteq> n"
  shows "unlink s n =
         Inr (set_next (set_prev (set_prev (set_next s pv (Some nx)) nx (Some pv)) n None) n None)"
  using assms by (simp add: unlink_def Let_def)

lemma dlist_split3:
  "dlist s h (ys @ n # zs) \<longleftrightarrow>
     distinct (h # ys @ n # zs) \<and> successively (link_ok s) (h # ys) \<and>
     link_ok s (last (h # ys)) n \<and> link_ok s n (hd (zs @ [h])) \<and>
     successively (link_ok s) (zs @ [h])"
  unfolding dlist_split by (auto simp: successively_Cons)

lemma unlink_dlist:
  assumes dl: "dlist s h (ys @ n # zs)"
  shows "\<exists>s'. unlink s n = Inr s' \<and> dlist s' h (ys @ zs) \<and> detached s' n
           \<and> obj s' = obj s \<and> prio s' = prio s \<and> sched_state s' = sched_state s
           \<and> child_links s' = child_links s \<and> tmr_period s' = tmr_period s \<and> tmr_list s' = tmr_list s
           \<and> resumed s' = resumed s \<and> fired s' = fired s
           \<and> (\<forall>x. x \<notin> set (h # ys @ n # zs) \<longrightarrow> lnk s' x = lnk s x)"
proof -
  define pv nx where "pv = last (h # ys)" and "nx = hd (zs @ [h])"
  from dl have d: "distinct (h # ys @ n # zs)" and s1: "successively (link_ok s) (h # ys)"
    and s2: "successively (link_ok s) (zs @ [h])" and l1: "link_ok s pv n" and l2: "link_ok s n nx"
    by (simp_all add: dlist_split3 pv_def nx_def)
  define s' where
    "s' = set_next (set_prev (set_prev (set_next s pv (Some nx)) nx (Some pv)) n None) n None"
  have pv_in: "pv \<in> set (h # ys)" unfolding pv_def by (rule last_in_set) simp
  have nx_in: "nx \<in> set (zs @ [h])" unfolding nx_def by (rule hd_in_set) simp
  from d pv_in nx_in have npv: "pv \<noteq> n" and nnx: "nx \<noteq> n" by auto
  from l1 l2 npv have eq: "unlink s n = Inr s'"
    unfolding s'_def by (intro unlink_eq) (simp_all add: link_ok_def)
  have p1: "pv \<notin> set (butlast (h # ys))"
    unfolding pv_def using d by (intro last_notin_butlast) simp_all
  have p2: "pv \<notin> set zs" using pv_in d by auto
  have n1: "nx \<notin> set (tl (zs @ [h]))"
    unfolding nx_def using d by (intro hd_notin_tl) simp_all
  have n2: "nx \<notin> set ys" using nx_in d by auto
  have nxt: "get_next s' x = (if x = n then None else if x = pv then Some nx else get_next s x)" for x
    by (simp add: s'_def)
  have prv: "get_prev s' x = (if x = n then None else if x = nx then Some pv else get_prev s x)" for x
    by (simp add: s'_def)
  have f1: "successively (link_ok s') (h # ys)"
  proof (rule link_ok_frame [OF s1])
    show "\<forall>x\<in>set (butlast (h # ys)). get_next s' x = get_next s x"
      using p1 d by (auto simp: nxt dest: in_set_butlastD)
    show "\<forall>y\<in>set (tl (h # ys)). get_prev s' y = get_prev s y"
      using n2 d by (auto simp: prv)
  qed
  have f2: "successively (link_ok s') (zs @ [h])"
  proof (rule link_ok_frame [OF s2])
    show "\<forall>x\<in>set (butlast (zs @ [h])). get_next s' x = get_next s x"
      using p2 d by (auto simp: nxt)
    show "\<forall>y\<in>set (tl (zs @ [h])). get_prev s' y = get_prev s y"
      using n1 d by (auto simp: prv dest: list.set_sel(2) [rotated])
  qed
  have l: "link_ok s' pv nx" using npv nnx by (simp add: link_ok_def nxt prv)
  from f1 f2 l d have "dlist s' h (ys @ zs)"
    unfolding dlist_split by (simp add: pv_def nx_def)
  moreover have "detached s' n" by (simp add: detached_def nxt prv)
  moreover have "\<forall>x. x \<notin> set (h # ys @ n # zs) \<longrightarrow> lnk s' x = lnk s x"
    using pv_in nx_in by (auto simp: s'_def set_next_def set_prev_def)
  ultimately show ?thesis using eq by (auto simp: s'_def)
qed

lemma unlink_detached: "detached s n \<Longrightarrow> unlink s n = Inr s"
  by (simp add: unlink_def detached_def)

lemma unlink_result_detached: "unlink s n = Inr s' \<Longrightarrow> detached s' n"
  by (auto simp: unlink_def detached_def Let_def split: if_splits option.splits)

lemma ring2_simps:
  "get_next ring2 a = (if a = 0 then Some 1 else if a = 1 then Some 2 else if a = 2 then Some 0
                       else if a = 3 then Some 4 else if a = 4 then Some 3 else None)"
  "get_prev ring2 a = (if a = 0 then Some 2 else if a = 1 then Some 0 else if a = 2 then Some 1
                       else if a = 3 then Some 4 else if a = 4 then Some 3 else None)"
  by (simp_all add: ring2_def bss_def get_next_def get_prev_def)


lemma link_ok_lnk_cong: "lnk s' = lnk s \<Longrightarrow> link_ok s' a b = link_ok s a b"
  by (simp add: link_ok_def get_next_def get_prev_def)

lemma dlist_lnk_cong: "lnk s' = lnk s \<Longrightarrow> dlist s' h xs = dlist s h xs"
proof -
  assume "lnk s' = lnk s"
  then have "\<And>a b. link_ok s' a b = link_ok s a b" by (rule link_ok_lnk_cong)
  then have "link_ok s' = link_ok s" by blast
  then show ?thesis by (simp add: dlist_def)
qed

lemma detached_lnk_cong: "lnk s' = lnk s \<Longrightarrow> detached s' n = detached s n"
  by (simp add: detached_def get_next_def get_prev_def)

lemma dlist_head: "dlist s h xs \<Longrightarrow> get_next s h = Some (hd (xs @ [h]))"
  using dlist_split [of s h "[]" xs] by (simp add: link_ok_def)

lemma dlist_tail: "dlist s h xs \<Longrightarrow> get_prev s h = Some (last (h # xs))"
  using dlist_split [of s h xs "[]"] by (simp add: link_ok_def)

lemma dlist_empty_iff:
  assumes "dlist s h xs"
  shows "empty_list s h \<longleftrightarrow> xs = []"
proof (cases xs)
  case Nil
  with dlist_head [OF assms] show ?thesis by (simp add: empty_list_def)
next
  case (Cons x ys)
  with assms have "x \<noteq> h" by (auto simp: dlist_def)
  with Cons dlist_head [OF assms] show ?thesis by (simp add: empty_list_def)
qed

lemma dlist_clear: "dlist (clear s h) h []"
  by (simp add: dlist_def link_ok_def clear_def)

lemma clear_frame [simp]:
  "obj (clear s h) = obj s" "prio (clear s h) = prio s" "sched_state (clear s h) = sched_state s"
  "child_links (clear s h) = child_links s" "tmr_period (clear s h) = tmr_period s"
  "tmr_list (clear s h) = tmr_list s" "resumed (clear s h) = resumed s" "fired (clear s h) = fired s"
  by (simp_all add: clear_def)

lemma clear_get [simp]:
  "get_next (clear s h) a = (if a = h then Some h else get_next s a)"
  "get_prev (clear s h) a = (if a = h then Some h else get_prev s a)"
  by (simp_all add: clear_def)

lemma insert_after_linked:
  "insert_after s n a = Inr s' \<Longrightarrow> get_prev s' n \<noteq> None \<and> get_next s' n \<noteq> None"
  by (auto simp: insert_after_def Let_def split: if_splits option.splits)

lemma insert_after_frame:
  "insert_after s n a = Inr s' \<Longrightarrow> child_links s' = child_links s \<and> obj s' = obj s"
  by (auto simp: insert_after_def Let_def split: if_splits option.splits)

lemma insert_after_assert:
  "get_prev s n \<noteq> None \<Longrightarrow> insert_after s n a = Inl AssertFailed"
  by (simp add: insert_after_def)

lemma next_in_ring:
  assumes "dlist s h xs" "a \<in> set (h # xs)" "get_next s a = Some b"
  shows "b \<in> set (h # xs)"
proof -
  from assms(2) obtain i where i: "i < length (h # xs)" "(h # xs) ! i = a"
    by (meson in_set_conv_nth)
  from assms(1) have "successively (link_ok s) (h # xs @ [h])" by (simp add: dlist_def)
  from successively_nth [OF this, of i] i have "link_ok s a ((h # xs @ [h]) ! Suc i)"
    by (auto simp: nth_append nth_Cons split: nat.splits)
  with assms(3) have "b = (xs @ [h]) ! i" by (simp add: link_ok_def)
  with i(1) show ?thesis by (cases "i < length xs") (auto simp: nth_append less_Suc_eq)
qed

lemma rings_share:
  assumes r1: "dlist s h xs" and r2: "dlist s h' ys" and n1: "n \<in> set xs" and n2: "n \<in> set ys"
  shows "h' \<in> set (h # xs)"
proof -
  from n2 obtain as bs where ys: "ys = as @ n # bs" by (auto simp: in_set_conv_decomp)
  from r2 have "successively (link_ok s) (n # bs @ [h'])"
    unfolding ys dlist_split by (simp add: successively_Cons)
  moreover have "n \<in> set (h # xs)" using n1 by simp
  ultimately have "set (bs @ [h']) \<subseteq> set (h # xs)"
  proof (induction bs arbitrary: n)
    case Nil
    then show ?case using next_in_ring [OF r1] by (auto simp: link_ok_def)
  next
    case (Cons b bs)
    from Cons.prems have "get_next s n = Some b" by (simp add: link_ok_def)
    with Cons.prems(2) have "b \<in> set (h # xs)" using next_in_ring [OF r1] by blast
    moreover from Cons.prems have "successively (link_ok s) (b # bs @ [h'])" by simp
    ultimately show ?case using Cons.IH by simp
  qed
  then show ?thesis by simp
qed

lemma first_insert:
  assumes z: "get_prev s h = None" and d: "detached s n" and ne: "n \<noteq> h"
  shows "\<exists>s'. insert_after (clear s h) n (Some h) = Inr s' \<and> dlist s' h [n]
           \<and> get_prev s' h = Some n \<and> get_next s' h = Some n
           \<and> obj s' = obj s \<and> sched_state s' = sched_state s"
proof -
  have "detached (clear s h) n" using d ne by (simp add: detached_def)
  moreover have "n \<notin> set (h # [] @ [])" using ne by simp
  moreover have "dlist (clear s h) h ([] @ [])" using dlist_clear by simp
  ultimately obtain s' where s': "insert_after (clear s h) n (Some (last (h # []))) = Inr s'"
    "dlist s' h ([] @ n # [])" "obj s' = obj (clear s h)" "sched_state s' = sched_state (clear s h)"
    using insert_after_dlist [of "clear s h" h "[]" "[]" n] by blast
  from s'(2) have "dlist s' h [n]" by simp
  from dlist_head [OF this] dlist_tail [OF this] s' show ?thesis by simp
qed

lemma static_boot_simps:
  "get_prev static_boot a = None" "get_next static_boot a = None"
  "child_links static_boot t = t" "obj static_boot 2 = Waiting_Thread_Node 5"
  by (simp_all add: static_boot_def bss_def get_prev_def get_next_def)

lemma one_waiter_simps:
  "get_next one_waiter a = (if a = 0 then Some 1 else if a = 1 then Some 0 else None)"
  "get_prev one_waiter a = (if a = 0 then Some 1 else if a = 1 then Some 0 else None)"
  "obj one_waiter 1 = Waiting_Thread_Node 7" "sched_state one_waiter 7 = destroyed"
  "resumed one_waiter = []"
  by (simp_all add: one_waiter_def bss_def get_next_def get_prev_def)

lemma follow_next_path:
  "successively (link_ok s) (a # bs) \<Longrightarrow> k \<le> length bs \<Longrightarrow>
   follow_next s k a = Some ((a # bs) ! k)"
proof (induction bs arbitrary: a k)
  case Nil
  then show ?case by simp
next
  case (Cons b bs)
  show ?case
  proof (cases k)
    case 0
    then show ?thesis by simp
  next
    case (Suc j)
    with Cons.prems have "get_next s a = Some b" "successively (link_ok s) (b # bs)" "j \<le> length bs"
      by (simp_all add: link_ok_def)
    with Cons.IH [of b j] Suc show ?thesis by simp
  qed
qed

lemma follow_prev_path:
  "successively (\<lambda>x y. link_ok s y x) (a # bs) \<Longrightarrow> k \<le> length bs \<Longrightarrow>
   follow_prev s k a = Some ((a # bs) ! k)"
proof (induction bs arbitrary: a k)
  case Nil
  then show ?case by simp
next
  case (Cons b bs)
  show ?case
  proof (cases k)
    case 0
    then show ?thesis by simp
  next
    case (Suc j)
    with Cons.prems have "get_prev s a = Some b" "successively (\<lambda>x y. link_ok s y x) (b # bs)"
      "j \<le> length bs"
      by (simp_all add: link_ok_def)
    with Cons.IH [of b j] Suc show ?thesis by simp
  qed
qed

lemma dlist_follow_next:
  assumes "dlist s h xs"
  shows "follow_next s (Suc (length xs)) h = Some h"
    and "k < length xs \<Longrightarrow> follow_next s (Suc k) h = Some (xs ! k)"
proof -
  from assms have p: "successively (link_ok s) (h # (xs @ [h]))" by (simp add: dlist_def)
  from follow_next_path [OF p, of "Suc (length xs)"]
  show "follow_next s (Suc (length xs)) h = Some h" by (simp add: nth_append)
  assume "k < length xs"
  with follow_next_path [OF p, of "Suc k"]
  show "follow_next s (Suc k) h = Some (xs ! k)" by (simp add: nth_append)
qed

lemma dlist_follow_prev:
  assumes "dlist s h xs"
  shows "follow_prev s (Suc (length xs)) h = Some h"
    and "k < length xs \<Longrightarrow> follow_prev s (Suc k) h = Some (rev xs ! k)"
proof -
  from assms have "successively (link_ok s) (h # xs @ [h])" by (simp add: dlist_def)
  then have "successively (\<lambda>x y. link_ok s y x) (rev (h # xs @ [h]))"
    by (simp only: successively_rev)
  then have p: "successively (\<lambda>x y. link_ok s y x) (h # (rev xs @ [h]))" by simp
  from follow_prev_path [OF p, of "Suc (length xs)"]
  show "follow_prev s (Suc (length xs)) h = Some h" by (simp add: nth_append)
  assume "k < length xs"
  with follow_prev_path [OF p, of "Suc k"]
  show "follow_prev s (Suc k) h = Some (rev xs ! k)" by (simp add: nth_append)
qed

lemma dlist_neighbours:
  assumes "dlist s h xs" "n \<in> set xs"
  shows "\<exists>a b. get_next s n = Some a \<and> get_prev s a = Some n \<and>
               get_prev s n = Some b \<and> get_next s b = Some n"
proof -
  from assms(2) obtain ys zs where "xs = ys @ n # zs" by (auto simp: in_set_conv_decomp)
  with assms(1) have "link_ok s (last (h # ys)) n" "link_ok s n (hd (zs @ [h]))"
    by (simp_all add: dlist_split3)
  then show ?thesis by (auto simp: link_ok_def)
qed

lemma waiting_link_ordered:
  "waiting_threads_list_link s h n = ordered_link (node_sched_prio s) (\<lambda>k q. k > q) s h n"
  by (simp add: waiting_threads_list_link_def ordered_link_def not_less Let_def cong: sum.case_cong option.case_cong if_cong)

lemma clock_link_ordered:
  "clock_timestamps_list_link s h n = ordered_link (timestamp s) (\<lambda>k q. k < q) s h n"
  by (simp add: clock_timestamps_list_link_def ordered_link_def not_less Let_def cong: sum.case_cong option.case_cong if_cong)

lemma priority_insert_ordered: "priority_insert pr n xs = ordered_insert (\<lambda>k q. k > q) pr n xs"
  by (simp add: priority_insert_def ordered_insert_def not_less)

lemma timestamp_insert_ordered: "timestamp_insert ts n xs = ordered_insert (\<lambda>k q. k < q) ts n xs"
  by (simp add: timestamp_insert_def ordered_insert_def not_less)

lemma while_prev_segment:
  "successively (link_ok s) (y # zs) \<Longrightarrow> cond (Some y) = Inr False \<Longrightarrow>
   \<forall>z\<in>set zs. cond (Some z) = Inr True \<Longrightarrow>
   while_prev s cond (Some (last (y # zs))) = Some (Inr (Some y))"
proof (induction zs rule: rev_induct)
  case Nil
  then show ?case by (subst while_prev.simps) simp
next
  case (snoc z zs)
  from snoc.prems(1) have "successively (link_ok s) ((y # zs) @ [z])" by simp
  then have seg: "successively (link_ok s) (y # zs)" and l: "link_ok s (last (y # zs)) z"
    unfolding successively_append_iff by simp_all
  from snoc.prems(3) have c: "cond (Some z) = Inr True" by simp
  from snoc.IH [OF seg snoc.prems(2)] snoc.prems(3)
  have "while_prev s cond (Some (last (y # zs))) = Some (Inr (Some y))" by simp
  with c l show ?case
    by (subst while_prev.simps) (simp add: link_ok_def)
qed

lemma walk_insert_stop:
  "\<forall>z\<in>set zs. \<not> stop z \<Longrightarrow> stop y \<Longrightarrow>
   walk_insert stop n (zs @ y # ys) = zs @ n # y # ys"
  by (induction zs) simp_all

lemma insert_after_dlist':
  assumes "dlist s h (ys @ zs)" "detached s n" "n \<notin> set (h # ys @ zs)"
  shows "\<exists>s'. insert_after s n (Some (last (h # ys))) = Inr s' \<and> dlist s' h (ys @ n # zs)
           \<and> same_data s s' \<and> (\<forall>x. x \<notin> set (h # ys @ zs) \<and> x \<noteq> n \<longrightarrow> lnk s' x = lnk s x)"
  using insert_after_dlist [OF assms] unfolding same_data_def by blast

lemma ordered_link_dlist:
  assumes dl: "dlist s h xs"
    and keys: "\<forall>x\<in>set (n # xs). key (Some x) = Inr (kf x)"
    and det: "detached s n" and fresh: "n \<notin> set (h # xs)"
  shows "\<exists>s'. ordered_link key before s h n = Some (Inr s')
           \<and> dlist s' h (ordered_insert before kf n xs) \<and> same_data s s'
           \<and> (\<forall>x. x \<notin> set (h # xs) \<and> x \<noteq> n \<longrightarrow> lnk s' x = lnk s x)"
proof -
  from keys have kn: "key (Some n) = Inr (kf n)" by simp
  from dlist_tail [OF dl] have tl: "tail s h = Some (last (h # xs))" by (simp add: tail_def)
  from dlist_head [OF dl] have hd: "head s h = Some (hd (xs @ [h]))" by (simp add: head_def)
  note em = dlist_empty_iff [OF dl]
  from tl have tl': "tail s h = Some (last xs)" if "xs \<noteq> []" using that by simp
  from hd have hd': "head s h = Some (hd xs)" if "xs \<noteq> []" using that by simp
  consider (empty) "xs = []"
    | (tail) "xs \<noteq> []" "\<not> before (kf n) (kf (last xs))"
    | (head) "xs \<noteq> []" "before (kf n) (kf (last xs))" "before (kf n) (kf (hd xs))"
    | (walk) "xs \<noteq> []" "before (kf n) (kf (last xs))" "\<not> before (kf n) (kf (hd xs))"
    by blast
  then show ?thesis
  proof cases
    case empty
    from insert_after_dlist' [of s h "[]" "[]" n] dl det fresh empty obtain s' where
      s': "insert_after s n (Some h) = Inr s'" "dlist s' h [n]" "same_data s s'"
          "\<forall>x. x \<notin> set (h # xs) \<and> x \<noteq> n \<longrightarrow> lnk s' x = lnk s x"
      by auto
    have "ordered_link key before s h n = Some (Inr s')"
      using em empty tl kn s'(1) by (simp add: ordered_link_def)
    with s' empty show ?thesis by (auto simp: ordered_insert_def)
  next
    case tail
    from insert_after_dlist' [of s h xs "[]" n] dl det fresh tail obtain s' where
      s': "insert_after s n (Some (last xs)) = Inr s'" "dlist s' h (xs @ [n])" "same_data s s'"
          "\<forall>x. x \<notin> set (h # xs) \<and> x \<noteq> n \<longrightarrow> lnk s' x = lnk s x"
      by auto
    from keys tail(1) have "key (Some (last xs)) = Inr (kf (last xs))" by simp
    then have "ordered_link key before s h n = Some (Inr s')"
      using em tail tl' kn s'(1) by (simp add: ordered_link_def)
    with s' tail show ?thesis by (auto simp: ordered_insert_def)
  next
    case head
    from insert_after_dlist' [of s h "[]" xs n] dl det fresh obtain s' where
      s': "insert_after s n (Some h) = Inr s'" "dlist s' h (n # xs)" "same_data s s'"
          "\<forall>x. x \<notin> set (h # xs) \<and> x \<noteq> n \<longrightarrow> lnk s' x = lnk s x"
      by auto
    from keys head(1) have "key (Some (last xs)) = Inr (kf (last xs))"
      "key (Some (hd xs)) = Inr (kf (hd xs))" by simp_all
    then have "ordered_link key before s h n = Some (Inr s')"
      using em head tl' hd' kn s'(1) by (simp add: ordered_link_def)
    with s' head show ?thesis by (auto simp: ordered_insert_def)
  next
    case walk
    from walk(1,3) have "\<exists>x\<in>set xs. \<not> before (kf n) (kf x)" by (intro bexI [of _ "hd xs"]) simp_all
    from split_list_last_prop [OF this] obtain ys y zs where
      xs: "xs = ys @ y # zs" and y: "\<not> before (kf n) (kf y)"
      and zs: "\<forall>z\<in>set zs. before (kf n) (kf z)" by blast
    define cond where
      "cond = (\<lambda>a. case key a of Inl e \<Rightarrow> Inl e | Inr q \<Rightarrow> Inr (before (kf n) q))"
    from dl have "successively (link_ok s) ((y # zs) @ [h])" unfolding xs dlist_split by simp
    then have seg: "successively (link_ok s) (y # zs)" unfolding successively_append_iff by simp
    have "cond (Some y) = Inr False" using keys y by (simp add: cond_def xs)
    moreover have "\<forall>z\<in>set zs. cond (Some z) = Inr True" using keys zs by (simp add: cond_def xs)
    ultimately have "while_prev s cond (Some (last (y # zs))) = Some (Inr (Some y))"
      by (rule while_prev_segment [OF seg])
    moreover have "last xs = last (y # zs)" by (simp add: xs)
    ultimately have w: "while_prev s cond (Some (last xs)) = Some (Inr (Some y))" by simp
    from insert_after_dlist' [of s h "ys @ [y]" zs n] dl det fresh obtain s' where
      s': "insert_after s n (Some y) = Inr s'" "dlist s' h (ys @ y # n # zs)" "same_data s s'"
          "\<forall>x. x \<notin> set (h # xs) \<and> x \<noteq> n \<longrightarrow> lnk s' x = lnk s x"
      by (auto simp: xs)
    from keys walk(1) have "key (Some (last xs)) = Inr (kf (last xs))"
      "key (Some (hd xs)) = Inr (kf (hd xs))" by simp_all
    then have "ordered_link key before s h n = Some (Inr s')"
      using em walk tl' hd' kn s'(1) w unfolding cond_def
      by (simp add: ordered_link_def)
    moreover have "ordered_insert before kf n xs = ys @ y # n # zs"
      using walk y zs walk_insert_stop [of "rev zs" "\<lambda>x. \<not> before (kf n) (kf x)" y n "rev ys"]
      by (simp add: ordered_insert_def) (simp add: xs)
    ultimately show ?thesis using s' by auto
  qed
qed

section \<open>Ordered insertion keeps the order\<close>

lemma set_walk_insert: "set (walk_insert stop n rs) = insert n (set rs)"
  by (induction rs) auto

lemma set_ordered_insert: "set (ordered_insert before kf n xs) = insert n (set xs)"
  by (auto simp: ordered_insert_def set_walk_insert)

lemma ordered_insert_decomp:
  assumes srt: "sorted_wrt (\<lambda>a b. \<not> before (kf b) (kf a)) xs"
    and P1: "\<forall>a b c. before a b \<longrightarrow> \<not> before c b \<longrightarrow> before a c"
  shows "\<exists>A B. xs = A @ B \<and> ordered_insert before kf n xs = A @ n # B \<and>
               (\<forall>a\<in>set A. \<not> before (kf n) (kf a)) \<and> (\<forall>b\<in>set B. before (kf n) (kf b))"
proof -
  consider (empty) "xs = []"
    | (tail) "xs \<noteq> []" "\<not> before (kf n) (kf (last xs))"
    | (head) "xs \<noteq> []" "before (kf n) (kf (last xs))" "before (kf n) (kf (hd xs))"
    | (walk) "xs \<noteq> []" "before (kf n) (kf (last xs))" "\<not> before (kf n) (kf (hd xs))"
    by blast
  then show ?thesis
  proof cases
    case empty
    then show ?thesis by (simp add: ordered_insert_def)
  next
    case tail
    from tail(1) obtain ys y where xs: "xs = ys @ [y]" by (cases xs rule: rev_cases) auto
    from tail(2) have ny: "\<not> before (kf n) (kf y)" by (simp add: xs)
    have "\<not> before (kf n) (kf a)" if "a \<in> set ys" for a
    proof -
      from srt that have "\<not> before (kf y) (kf a)" by (simp add: xs sorted_wrt_append)
      with ny P1 show ?thesis by blast
    qed
    with ny have "\<forall>a\<in>set xs. \<not> before (kf n) (kf a)" by (simp add: xs)
    moreover from tail have "ordered_insert before kf n xs = xs @ n # []"
      by (simp add: ordered_insert_def)
    ultimately show ?thesis by (intro exI [of _ xs] exI [of _ "[]"]) simp
  next
    case head
    from head(1) obtain x ys where xs: "xs = x # ys" by (cases xs) auto
    from head(3) have nx: "before (kf n) (kf x)" by (simp add: xs)
    have "before (kf n) (kf b)" if "b \<in> set ys" for b
    proof -
      from srt that have "\<not> before (kf b) (kf x)" by (simp add: xs)
      with nx P1 show ?thesis by blast
    qed
    with nx have "\<forall>b\<in>set xs. before (kf n) (kf b)" by (simp add: xs)
    moreover from head have "ordered_insert before kf n xs = [] @ n # xs"
      by (simp add: ordered_insert_def)
    ultimately show ?thesis by (intro exI [of _ "[]"] exI [of _ xs]) simp
  next
    case walk
    from walk(1,3) have "\<exists>x\<in>set xs. \<not> before (kf n) (kf x)" by (intro bexI [of _ "hd xs"]) simp_all
    from split_list_last_prop [OF this] obtain ys y zs where
      xs: "xs = ys @ y # zs" and y: "\<not> before (kf n) (kf y)"
      and zs: "\<forall>z\<in>set zs. before (kf n) (kf z)" by blast
    have eq: "ordered_insert before kf n xs = (ys @ [y]) @ n # zs"
      using walk y zs walk_insert_stop [of "rev zs" "\<lambda>x. \<not> before (kf n) (kf x)" y n "rev ys"]
      by (simp add: ordered_insert_def) (simp add: xs)
    have "\<not> before (kf n) (kf a)" if "a \<in> set ys" for a
    proof -
      from srt that have "\<not> before (kf y) (kf a)" by (simp add: xs sorted_wrt_append)
      with y P1 show ?thesis by blast
    qed
    with y have "\<forall>a\<in>set (ys @ [y]). \<not> before (kf n) (kf a)" by auto
    with zs eq show ?thesis
      by (intro exI [of _ "ys @ [y]"] exI [of _ zs]) (simp add: xs)
  qed
qed

lemma ordered_insert_sorted:
  assumes srt: "sorted_wrt (\<lambda>a b. \<not> before (kf b) (kf a)) xs"
    and P1: "\<forall>a b c. before a b \<longrightarrow> \<not> before c b \<longrightarrow> before a c"
    and P2: "\<forall>a b. before a b \<longrightarrow> \<not> before b a"
  shows "sorted_wrt (\<lambda>a b. \<not> before (kf b) (kf a)) (ordered_insert before kf n xs)"
proof -
  from ordered_insert_decomp [where before=before and kf=kf and xs=xs and n=n, OF srt P1] obtain A B where
    d: "xs = A @ B" "ordered_insert before kf n xs = A @ n # B"
       "\<forall>a\<in>set A. \<not> before (kf n) (kf a)" "\<forall>b\<in>set B. before (kf n) (kf b)" by blast
  from d(4) P2 have "\<forall>b\<in>set B. \<not> before (kf b) (kf n)" by blast
  moreover from srt have "sorted_wrt (\<lambda>a b. \<not> before (kf b) (kf a)) (A @ B)" by (simp only: d(1))
  ultimately have "sorted_wrt (\<lambda>a b. \<not> before (kf b) (kf a)) (A @ n # B)"
    using d(3) by (simp add: sorted_wrt_append)
  then show ?thesis by (simp only: d(2))
qed

lemma ordered_insert_stable:
  assumes srt: "sorted_wrt (\<lambda>a b. \<not> before (kf b) (kf a)) xs"
    and P1: "\<forall>a b c. before a b \<longrightarrow> \<not> before c b \<longrightarrow> before a c"
    and P2: "\<forall>a b. before a b \<longrightarrow> \<not> before b a"
  shows "filter (\<lambda>x. kf x = p) (ordered_insert before kf n xs) = filter (\<lambda>x. kf x = p) (xs @ [n])"
proof -
  from ordered_insert_decomp [where before=before and kf=kf and xs=xs and n=n, OF srt P1] obtain A B where
    d: "xs = A @ B" "ordered_insert before kf n xs = A @ n # B"
       "\<forall>b\<in>set B. before (kf n) (kf b)" by blast
  have "kf b \<noteq> kf n" if "b \<in> set B" for b
  proof
    assume "kf b = kf n"
    with d(3) that have "before (kf n) (kf n)" by auto
    with P2 show False by blast
  qed
  then have "\<forall>b\<in>set B. kf b \<noteq> kf n" by blast
  then have "kf n = p \<Longrightarrow> filter (\<lambda>x. kf x = p) B = []" by (auto simp: filter_empty_conv)
  then have "filter (\<lambda>x. kf x = p) (A @ n # B) = filter (\<lambda>x. kf x = p) ((A @ B) @ [n])"
    by simp
  then show ?thesis by (simp only: d(2) d(1) [symmetric])
qed

lemma insert_all_sorted_stable:
  assumes P1: "\<forall>a b c. before a b \<longrightarrow> \<not> before c b \<longrightarrow> before a c"
    and P2: "\<forall>a b. before a b \<longrightarrow> \<not> before b a"
  shows "sorted_wrt (\<lambda>a b. \<not> before (kf b) (kf a)) xs \<Longrightarrow>
     sorted_wrt (\<lambda>a b. \<not> before (kf b) (kf a)) (foldl (\<lambda>xs n. ordered_insert before kf n xs) xs ns) \<and>
     (\<forall>p. filter (\<lambda>x. kf x = p) (foldl (\<lambda>xs n. ordered_insert before kf n xs) xs ns) =
          filter (\<lambda>x. kf x = p) (xs @ ns))"
proof (induction ns arbitrary: xs)
  case Nil
  then show ?case by simp
next
  case (Cons n ns)
  from ordered_insert_sorted [where before=before and kf=kf and xs=xs and n=n, OF Cons.prems P1 P2]
  have s: "sorted_wrt (\<lambda>a b. \<not> before (kf b) (kf a)) (ordered_insert before kf n xs)" by simp
  from Cons.IH [OF s] ordered_insert_stable [where before=before and kf=kf and xs=xs and n=n, OF Cons.prems P1 P2]
  show ?case by simp
qed

section \<open>The ordered link operations on a ring\<close>

lemma waiting_key:
  "is_waiting_node s x \<Longrightarrow> node_sched_prio s (Some x) = Inr (prio_of s x)"
  "is_waiting_node s x \<Longrightarrow> node_prio s (Some x) = Inr (prio_of s x)"
  by (simp_all add: is_waiting_node_def node_sched_prio_def node_prio_def node_thread_def
        prio_of_def sched_prio_def split: object.splits)

lemma timestamp_key:
  "is_timestamp_node s x \<Longrightarrow> timestamp s (Some x) = Inr (timestamp_of s x)"
  by (simp add: is_timestamp_node_def timestamp_def timestamp_of_def split: object.splits)

lemma waiting_link_step:
  assumes "dlist s h xs" "\<forall>x\<in>set (n # xs). is_waiting_node s x" "detached s n"
    "n \<notin> set (h # xs)"
  shows "\<exists>s'. waiting_threads_list_link s h n = Some (Inr s')
           \<and> dlist s' h (priority_insert (prio_of s) n xs) \<and> same_data s s'
           \<and> (\<forall>x. x \<notin> set (h # xs) \<and> x \<noteq> n \<longrightarrow> lnk s' x = lnk s x)"
proof -
  from assms(2) have "\<forall>x\<in>set (n # xs). node_sched_prio s (Some x) = Inr (prio_of s x)"
    by (simp add: waiting_key)
  from ordered_link_dlist [where key = "node_sched_prio s" and kf = "prio_of s"
      and before = "\<lambda>k q. k > q", OF assms(1) this assms(3,4)]
  show ?thesis by (simp only: waiting_link_ordered priority_insert_ordered)
qed

lemma clock_link_step:
  assumes "dlist s h xs" "\<forall>x\<in>set (n # xs). is_timestamp_node s x" "detached s n"
    "n \<notin> set (h # xs)"
  shows "\<exists>s'. clock_timestamps_list_link s h n = Some (Inr s')
           \<and> dlist s' h (timestamp_insert (timestamp_of s) n xs) \<and> same_data s s'
           \<and> (\<forall>x. x \<notin> set (h # xs) \<and> x \<noteq> n \<longrightarrow> lnk s' x = lnk s x)"
proof -
  from assms(2) have "\<forall>x\<in>set (n # xs). timestamp s (Some x) = Inr (timestamp_of s x)"
    by (simp add: timestamp_key)
  from ordered_link_dlist [where key = "timestamp s" and kf = "timestamp_of s"
      and before = "\<lambda>k q. k < q", OF assms(1) this assms(3,4)]
  show ?thesis by (simp only: clock_link_ordered timestamp_insert_ordered)
qed

lemma ready_link_ordered:
  assumes "get_prev s h \<noteq> None"
  shows "ready_threads_list_link s h n =
     (case ordered_link (node_prio s) (\<lambda>k q. k > q) s h n of
        None \<Rightarrow> None
      | Some (Inl e) \<Rightarrow> Some (Inl e)
      | Some (Inr s1) \<Rightarrow>
          (case node_thread s1 (Some n) of
             Inl e \<Rightarrow> Some (Inl e)
           | Inr t \<Rightarrow> Some (Inr (s1\<lparr>sched_state := (sched_state s1)(t := ready)\<rparr>))))"
proof (cases "node_prio s (Some n)")
  case (Inl e)
  from assms obtain y where "get_prev s h = Some y" by auto
  with Inl show ?thesis by (simp add: ready_threads_list_link_def ordered_link_def)
next
  case (Inr p)
  from assms obtain y where gp: "get_prev s h = Some y" by auto
  define pos where "pos =
     (case (if empty_list s h then Inr True
            else (case node_prio s (tail s h) of Inl e \<Rightarrow> Inl e | Inr q \<Rightarrow> Inr (p \<le> q))) of
        Inl e \<Rightarrow> Some (Inl e)
      | Inr True \<Rightarrow> Some (Inr (tail s h))
      | Inr False \<Rightarrow>
          (case node_prio s (head s h) of
             Inl e \<Rightarrow> Some (Inl e)
           | Inr q \<Rightarrow>
               if p > q then Some (Inr (Some h))
               else while_prev s
                      (\<lambda>a. case node_prio s a of Inl e \<Rightarrow> Inl e | Inr q \<Rightarrow> Inr (p > q))
                      (tail s h)))"
  have L: "ready_threads_list_link s h n =
     (case pos of
        None \<Rightarrow> None
      | Some (Inl e) \<Rightarrow> Some (Inl e)
      | Some (Inr a) \<Rightarrow>
          (case insert_after s n a of
             Inl e \<Rightarrow> Some (Inl e)
           | Inr s1 \<Rightarrow>
               (case node_thread s1 (Some n) of
                  Inl e \<Rightarrow> Some (Inl e)
                | Inr t \<Rightarrow> Some (Inr (s1\<lparr>sched_state := (sched_state s1)(t := ready)\<rparr>)))))"
    using gp Inr by (simp add: ready_threads_list_link_def pos_def Let_def)
  have R: "ordered_link (node_prio s) (\<lambda>k q. k > q) s h n =
     (case pos of
        None \<Rightarrow> None
      | Some (Inl e) \<Rightarrow> Some (Inl e)
      | Some (Inr a) \<Rightarrow>
          (case insert_after s n a of Inl e \<Rightarrow> Some (Inl e) | Inr s1 \<Rightarrow> Some (Inr s1)))"
    using Inr
    by (simp add: ordered_link_def pos_def Let_def not_less
          cong: sum.case_cong option.case_cong if_cong)
  show ?thesis unfolding L R by (simp split: option.splits sum.splits)
qed

lemma ready_link_zero:
  "get_prev s h = None \<Longrightarrow> ready_threads_list_link s h n = ready_threads_list_link (clear s h) h n"
  by (simp add: ready_threads_list_link_def)

lemma ready_link_step:
  assumes "dlist s h xs" "\<forall>x\<in>set (n # xs). is_waiting_node s x" "detached s n"
    "n \<notin> set (h # xs)" "obj s n = Waiting_Thread_Node t"
  shows "\<exists>s1 s'. s' = s1\<lparr>sched_state := (sched_state s1)(t := ready)\<rparr>
           \<and> ready_threads_list_link s h n = Some (Inr s')
           \<and> dlist s' h (priority_insert (prio_of s) n xs) \<and> same_data s s1
           \<and> (\<forall>x. x \<notin> set (h # xs) \<and> x \<noteq> n \<longrightarrow> lnk s' x = lnk s x)"
proof -
  from assms(2) have "\<forall>x\<in>set (n # xs). node_prio s (Some x) = Inr (prio_of s x)"
    by (simp add: waiting_key)
  from ordered_link_dlist [where key = "node_prio s" and kf = "prio_of s"
      and before = "\<lambda>k q. k > q", OF assms(1) this assms(3,4)]
  obtain s1 where s1: "ordered_link (node_prio s) (\<lambda>k q. k > q) s h n = Some (Inr s1)"
    "dlist s1 h (priority_insert (prio_of s) n xs)" "same_data s s1"
    "\<forall>x. x \<notin> set (h # xs) \<and> x \<noteq> n \<longrightarrow> lnk s1 x = lnk s x"
    unfolding priority_insert_ordered by blast
  define s' where "s' = s1\<lparr>sched_state := (sched_state s1)(t := ready)\<rparr>"
  have l: "lnk s' = lnk s1" by (simp add: s'_def)
  from dlist_tail [OF assms(1)] have "get_prev s h \<noteq> None" by simp
  moreover from s1(3) assms(5) have "node_thread s1 (Some n) = Inr t"
    by (simp add: same_data_def node_thread_def)
  ultimately have "ready_threads_list_link s h n = Some (Inr s')"
    using s1(1) by (simp add: ready_link_ordered s'_def)
  moreover have "dlist s' h (priority_insert (prio_of s) n xs)"
    using s1(2) dlist_lnk_cong [OF l] by simp
  ultimately show ?thesis using s1(3,4) l s'_def by auto
qed

lemma link_all_steps:
  assumes step: "\<forall>s xs n. dlist s h xs \<and> (\<forall>x\<in>set (n # xs). good s x) \<and> detached s n \<and>
        n \<notin> set (h # xs) \<longrightarrow>
      (\<exists>s'. link s h n = Some (Inr s') \<and> dlist s' h (ordered_insert before (kfs s) n xs) \<and>
            fr s s' \<and> (\<forall>x. x \<notin> set (h # xs) \<and> x \<noteq> n \<longrightarrow> lnk s' x = lnk s x))"
    and dep: "\<forall>s s'. fr s s' \<longrightarrow> good s' = good s \<and> kfs s' = kfs s"
    and refl: "\<forall>s. fr s s"
    and trans: "\<forall>a b c. fr a b \<and> fr b c \<longrightarrow> fr a c"
  shows "dlist s h xs \<Longrightarrow> \<forall>x\<in>set (ns @ xs). good s x \<Longrightarrow> \<forall>n\<in>set ns. detached s n \<Longrightarrow>
    distinct ns \<Longrightarrow> set ns \<inter> set (h # xs) = {} \<Longrightarrow>
    \<exists>s'. link_all link s h ns = Some (Inr s') \<and>
         dlist s' h (foldl (\<lambda>xs n. ordered_insert before (kfs s) n xs) xs ns) \<and>
         fr s s' \<and> (\<forall>x. x \<notin> set (h # xs) \<union> set ns \<longrightarrow> lnk s' x = lnk s x)"
proof (induction ns arbitrary: s xs)
  case Nil
  then show ?case using refl by simp
next
  case (Cons n ns)
  have "dlist s h xs \<and> (\<forall>x\<in>set (n # xs). good s x) \<and> detached s n \<and> n \<notin> set (h # xs)"
    using Cons.prems by auto
  with step obtain s1 where
    s1: "link s h n = Some (Inr s1)" "dlist s1 h (ordered_insert before (kfs s) n xs)"
        "fr s s1" "\<forall>x. x \<notin> set (h # xs) \<and> x \<noteq> n \<longrightarrow> lnk s1 x = lnk s x"
    by blast
  from dep s1(3) have g: "good s1 = good s" and k: "kfs s1 = kfs s" by blast+
  let ?ys = "ordered_insert before (kfs s) n xs"
  have sy: "set ?ys = insert n (set xs)" by (rule set_ordered_insert)
  have 1: "\<forall>x\<in>set (ns @ ?ys). good s1 x" using Cons.prems(2) by (auto simp: g sy)
  have 2: "\<forall>m\<in>set ns. detached s1 m"
  proof
    fix m assume m: "m \<in> set ns"
    with Cons.prems(4,5) have "m \<notin> set (h # xs) \<and> m \<noteq> n" by auto
    with s1(4) have "lnk s1 m = lnk s m" by blast
    moreover from m Cons.prems(3) have "detached s m" by simp
    ultimately show "detached s1 m" by (simp add: detached_def get_prev_def get_next_def)
  qed
  have 3: "distinct ns" using Cons.prems(4) by simp
  have 4: "set ns \<inter> set (h # ?ys) = {}" using Cons.prems(4,5) by (auto simp: sy)
  from Cons.IH [OF s1(2) 1 2 3 4] obtain s' where
    s': "link_all link s1 h ns = Some (Inr s')"
        "dlist s' h (foldl (\<lambda>xs n. ordered_insert before (kfs s1) n xs) ?ys ns)"
        "fr s1 s'"
        "\<forall>x. x \<notin> set (h # ?ys) \<union> set ns \<longrightarrow> lnk s' x = lnk s1 x"
    by blast
  have "\<forall>x. x \<notin> set (h # xs) \<union> set (n # ns) \<longrightarrow> lnk s' x = lnk s x"
    using s'(4) s1(4) by (auto simp: sy)
  moreover from trans s1(3) s'(3) have "fr s s'" by blast
  ultimately show ?case using s1 s' by (simp add: k)
qed

lemma gt_props:
  "\<forall>a b c :: nat. a > b \<longrightarrow> \<not> c > b \<longrightarrow> a > c" "\<forall>a b :: nat. a > b \<longrightarrow> \<not> b > a"
  by auto

lemma lt_props:
  "\<forall>a b c :: nat. a < b \<longrightarrow> \<not> c < b \<longrightarrow> a < c" "\<forall>a b :: nat. a < b \<longrightarrow> \<not> b < a"
  by auto

lemma priority_insert_all:
  assumes "sorted_wrt (\<lambda>a b. pr a \<ge> pr b) xs"
  shows "sorted_wrt (\<lambda>a b. pr a \<ge> pr b) (foldl (\<lambda>xs n. priority_insert pr n xs) xs ns) \<and>
     (\<forall>p. filter (\<lambda>x. pr x = p) (foldl (\<lambda>xs n. priority_insert pr n xs) xs ns) =
          filter (\<lambda>x. pr x = p) (xs @ ns))"
proof -
  from assms have "sorted_wrt (\<lambda>a b. \<not> pr b > pr a) xs" by (simp add: not_less)
  from insert_all_sorted_stable [where before = "\<lambda>k q. k > q" and kf = pr and xs = xs and ns = ns,
      OF gt_props this]
  show ?thesis by (simp add: not_less priority_insert_ordered)
qed

lemma timestamp_insert_all:
  assumes "sorted_wrt (\<lambda>a b. ts a \<le> ts b) xs"
  shows "sorted_wrt (\<lambda>a b. ts a \<le> ts b) (foldl (\<lambda>xs n. timestamp_insert ts n xs) xs ns) \<and>
     (\<forall>p. filter (\<lambda>x. ts x = p) (foldl (\<lambda>xs n. timestamp_insert ts n xs) xs ns) =
          filter (\<lambda>x. ts x = p) (xs @ ns))"
proof -
  from assms have "sorted_wrt (\<lambda>a b. \<not> ts b < ts a) xs" by (simp add: not_less)
  from insert_all_sorted_stable [where before = "\<lambda>k q. k < q" and kf = ts and xs = xs and ns = ns,
      OF lt_props this]
  show ?thesis by (simp add: not_less timestamp_insert_ordered)
qed

lemma data_dep:
  "\<forall>s s'. obj s' = obj s \<and> prio s' = prio s \<longrightarrow>
      is_waiting_node s' = is_waiting_node s \<and> prio_of s' = prio_of s"
  "\<forall>s s'. obj s' = obj s \<and> prio s' = prio s \<longrightarrow>
      is_timestamp_node s' = is_timestamp_node s \<and> timestamp_of s' = timestamp_of s"
  "\<forall>s s'. same_data s s' \<longrightarrow>
      is_waiting_node s' = is_waiting_node s \<and> prio_of s' = prio_of s"
  "\<forall>s s'. same_data s s' \<longrightarrow>
      is_timestamp_node s' = is_timestamp_node s \<and> timestamp_of s' = timestamp_of s"
  by (auto simp: fun_eq_iff is_waiting_node_def prio_of_def is_timestamp_node_def timestamp_of_def
        same_data_def split: object.splits)

lemma same_data_refl_trans:
  "\<forall>s. same_data s s" "\<forall>a b c. same_data a b \<and> same_data b c \<longrightarrow> same_data a c"
  by (auto simp: same_data_def)

lemma keys_refl_trans:
  "\<forall>s :: state. obj s = obj s \<and> prio s = prio s"
  "\<forall>a b c :: state. (obj b = obj a \<and> prio b = prio a) \<and> (obj c = obj b \<and> prio c = prio b) \<longrightarrow>
      obj c = obj a \<and> prio c = prio a"
  by auto

lemma waiting_link_all:
  assumes "dlist s h xs" "\<forall>x\<in>set (ns @ xs). is_waiting_node s x" "\<forall>n\<in>set ns. detached s n"
    "distinct ns" "set ns \<inter> set (h # xs) = {}"
  shows "\<exists>s'. link_all waiting_threads_list_link s h ns = Some (Inr s') \<and>
         dlist s' h (foldl (\<lambda>xs n. priority_insert (prio_of s) n xs) xs ns) \<and>
         same_data s s' \<and>
         (\<forall>x. x \<notin> set (h # xs) \<union> set ns \<longrightarrow> lnk s' x = lnk s x)"
proof -
  have step: "\<forall>s xs n. dlist s h xs \<and> (\<forall>x\<in>set (n # xs). is_waiting_node s x) \<and> detached s n \<and>
        n \<notin> set (h # xs) \<longrightarrow>
      (\<exists>s'. waiting_threads_list_link s h n = Some (Inr s') \<and>
            dlist s' h (ordered_insert (\<lambda>k q. k > q) (prio_of s) n xs) \<and>
            same_data s s' \<and>
            (\<forall>x. x \<notin> set (h # xs) \<and> x \<noteq> n \<longrightarrow> lnk s' x = lnk s x))"
    using waiting_link_step unfolding priority_insert_ordered by blast
  from link_all_steps [where link = waiting_threads_list_link and good = is_waiting_node
      and kfs = prio_of and before = "\<lambda>k q. k > q" and h = h and fr = same_data,
      OF step data_dep(3) same_data_refl_trans assms]
  show ?thesis by (simp only: priority_insert_ordered)
qed

lemma clock_link_all:
  assumes "dlist s h xs" "\<forall>x\<in>set (ns @ xs). is_timestamp_node s x" "\<forall>n\<in>set ns. detached s n"
    "distinct ns" "set ns \<inter> set (h # xs) = {}"
  shows "\<exists>s'. link_all clock_timestamps_list_link s h ns = Some (Inr s') \<and>
         dlist s' h (foldl (\<lambda>xs n. timestamp_insert (timestamp_of s) n xs) xs ns) \<and>
         same_data s s' \<and>
         (\<forall>x. x \<notin> set (h # xs) \<union> set ns \<longrightarrow> lnk s' x = lnk s x)"
proof -
  have step: "\<forall>s xs n. dlist s h xs \<and> (\<forall>x\<in>set (n # xs). is_timestamp_node s x) \<and> detached s n \<and>
        n \<notin> set (h # xs) \<longrightarrow>
      (\<exists>s'. clock_timestamps_list_link s h n = Some (Inr s') \<and>
            dlist s' h (ordered_insert (\<lambda>k q. k < q) (timestamp_of s) n xs) \<and>
            same_data s s' \<and>
            (\<forall>x. x \<notin> set (h # xs) \<and> x \<noteq> n \<longrightarrow> lnk s' x = lnk s x))"
    using clock_link_step unfolding timestamp_insert_ordered by blast
  from link_all_steps [where link = clock_timestamps_list_link and good = is_timestamp_node
      and kfs = timestamp_of and before = "\<lambda>k q. k < q" and h = h and fr = same_data,
      OF step data_dep(4) same_data_refl_trans assms]
  show ?thesis by (simp only: timestamp_insert_ordered)
qed

lemma waiters6_simps:
  "get_next waiters6 a = (if a = 0 then Some 0 else None)"
  "get_prev waiters6 a = (if a = 0 then Some 0 else None)"
  "is_waiting_node waiters6 a = (1 \<le> a \<and> a \<le> 6)"
  "prio_of waiters6 1 = 5" "prio_of waiters6 (Suc 0) = 5" "prio_of waiters6 2 = 9" "prio_of waiters6 3 = 5"
  "prio_of waiters6 4 = 7" "prio_of waiters6 5 = 9" "prio_of waiters6 6 = 1"
  by (simp_all add: waiters6_def bss_def get_next_def get_prev_def is_waiting_node_def prio_of_def)

lemma waiters6_order:
  "foldl (\<lambda>xs n. priority_insert (prio_of waiters6) n xs) [] [1, 2, 3, 4, 5, 6] = [2, 5, 4, 1, 3, 6]"
  by (simp add: priority_insert_def waiters6_simps)

lemma is_waiting_node_obj: "is_waiting_node s n \<longleftrightarrow> (\<exists>t. obj s n = Waiting_Thread_Node t)"
  by (simp add: is_waiting_node_def split: object.splits)

lemma ready_link_step':
  assumes "dlist s h xs" "\<forall>x\<in>set (n # xs). is_waiting_node s x" "detached s n"
    "n \<notin> set (h # xs)" "obj s n = Waiting_Thread_Node t"
  shows "\<exists>s'. ready_threads_list_link s h n = Some (Inr s')
           \<and> dlist s' h (priority_insert (prio_of s) n xs)
           \<and> sched_state s' = (sched_state s)(t := ready) \<and> obj s' = obj s \<and> prio s' = prio s
           \<and> (\<forall>x. x \<notin> set (h # xs) \<and> x \<noteq> n \<longrightarrow> lnk s' x = lnk s x)"
proof -
  from ready_link_step [OF assms] obtain s1 s' where
    s': "s' = s1\<lparr>sched_state := (sched_state s1)(t := ready)\<rparr>"
        "ready_threads_list_link s h n = Some (Inr s')"
        "dlist s' h (priority_insert (prio_of s) n xs)" "same_data s s1"
        "\<forall>x. x \<notin> set (h # xs) \<and> x \<noteq> n \<longrightarrow> lnk s' x = lnk s x"
    by blast
  from s'(1,4) have "sched_state s' = (sched_state s)(t := ready)" "obj s' = obj s" "prio s' = prio s"
    by (simp_all add: same_data_def)
  with s'(2,3,5) show ?thesis by blast
qed

lemma ready_link_all:
  assumes "dlist s h xs" "\<forall>x\<in>set (ns @ xs). is_waiting_node s x" "\<forall>n\<in>set ns. detached s n"
    "distinct ns" "set ns \<inter> set (h # xs) = {}"
  shows "\<exists>s'. link_all ready_threads_list_link s h ns = Some (Inr s') \<and>
         dlist s' h (foldl (\<lambda>xs n. priority_insert (prio_of s) n xs) xs ns) \<and>
         obj s' = obj s \<and> prio s' = prio s \<and>
         (\<forall>x. x \<notin> set (h # xs) \<union> set ns \<longrightarrow> lnk s' x = lnk s x)"
proof -
  have step: "\<forall>s xs n. dlist s h xs \<and> (\<forall>x\<in>set (n # xs). is_waiting_node s x) \<and> detached s n \<and>
        n \<notin> set (h # xs) \<longrightarrow>
      (\<exists>s'. ready_threads_list_link s h n = Some (Inr s') \<and>
            dlist s' h (ordered_insert (\<lambda>k q. k > q) (prio_of s) n xs) \<and>
            (obj s' = obj s \<and> prio s' = prio s) \<and>
            (\<forall>x. x \<notin> set (h # xs) \<and> x \<noteq> n \<longrightarrow> lnk s' x = lnk s x))"
  proof (intro allI impI)
    fix s xs n
    assume a: "dlist s h xs \<and> (\<forall>x\<in>set (n # xs). is_waiting_node s x) \<and> detached s n \<and>
        n \<notin> set (h # xs)"
    then obtain t where "obj s n = Waiting_Thread_Node t" by (auto simp: is_waiting_node_obj)
    with a ready_link_step' [of s h xs n t]
    show "\<exists>s'. ready_threads_list_link s h n = Some (Inr s') \<and>
            dlist s' h (ordered_insert (\<lambda>k q. k > q) (prio_of s) n xs) \<and>
            (obj s' = obj s \<and> prio s' = prio s) \<and>
            (\<forall>x. x \<notin> set (h # xs) \<and> x \<noteq> n \<longrightarrow> lnk s' x = lnk s x)"
      unfolding priority_insert_ordered by blast
  qed
  from link_all_steps [where link = ready_threads_list_link and good = is_waiting_node
      and kfs = prio_of and before = "\<lambda>k q. k > q" and h = h
      and fr = "\<lambda>s s'. obj s' = obj s \<and> prio s' = prio s",
      OF step data_dep(1) keys_refl_trans assms]
  show ?thesis by (simp only: priority_insert_ordered conj_assoc)
qed

lemma ready_link_all_static:
  assumes st: "static_list s h []" and w: "\<forall>n\<in>set ns. is_waiting_node s n \<and> detached s n"
    and d: "distinct ns" and h: "h \<notin> set ns"
  shows "\<exists>s'. link_all ready_threads_list_link s h ns = Some (Inr s') \<and>
         static_list s' h (foldl (\<lambda>xs n. priority_insert (prio_of s) n xs) [] ns) \<and>
         obj s' = obj s \<and> prio s' = prio s"
proof (cases "dlist s h []")
  case True
  from ready_link_all [OF True, of ns] w d h show ?thesis by (auto simp: static_list_def)
next
  case False
  with st have z: "get_prev s h = None" "get_next s h = None" by (auto simp: static_list_def)
  show ?thesis
  proof (cases ns)
    case Nil
    with st show ?thesis by simp
  next
    case (Cons n ms)
    have e: "link_all ready_threads_list_link s h ns = link_all ready_threads_list_link (clear s h) h ns"
      using z(1) by (simp add: Cons ready_link_zero [of s h n])
    have dep: "is_waiting_node (clear s h) = is_waiting_node s" "prio_of (clear s h) = prio_of s"
      using data_dep(1) by (metis clear_frame(1,2))+
    have "\<forall>n\<in>set ns. detached (clear s h) n" using w h by (auto simp: detached_def)
    with ready_link_all [OF dlist_clear, of ns s h] w d h dep e show ?thesis
      by (auto simp: static_list_def)
  qed
qed

lemma static_boot_waiting: "is_waiting_node static_boot 2"
  by (simp add: is_waiting_node_def static_boot_simps)

lemma unlink_head_dlist:
  assumes dl: "dlist s h (x # xs)" and ob: "obj s x = Waiting_Thread_Node t"
  shows "\<exists>s1 s'. unlink s x = Inr s1 \<and> s' = s1\<lparr>sched_state := (sched_state s1)(t := running)\<rparr> \<and>
           unlink_head s h = Inr (s', t) \<and> dlist s' h xs \<and> detached s' x \<and>
           sched_state s' t = running \<and> obj s' = obj s \<and> prio s' = prio s"
proof -
  from dl have "dlist s h ([] @ x # xs)" by simp
  from unlink_dlist [OF this] obtain s1 where
    s1: "unlink s x = Inr s1" "dlist s1 h xs" "detached s1 x" "obj s1 = obj s" "prio s1 = prio s"
    by auto
  define s' where "s' = s1\<lparr>sched_state := (sched_state s1)(t := running)\<rparr>"
  have l: "lnk s' = lnk s1" by (simp add: s'_def)
  from dlist_head [OF dl] have hd: "head s h = Some x" by (simp add: head_def)
  from dlist_empty_iff [OF dl] have ne: "\<not> empty_list s h" by simp
  have "unlink_head s h = Inr (s', t)"
    using ne hd ob s1(1) by (simp add: unlink_head_def node_thread_def s'_def)
  moreover have "dlist s' h xs" using s1(2) dlist_lnk_cong [OF l] by simp
  moreover have "detached s' x" using s1(3) detached_lnk_cong [OF l] by simp
  moreover have "sched_state s' t = running" "obj s' = obj s" "prio s' = prio s"
    using s1(4,5) by (simp_all add: s'_def)
  ultimately show ?thesis using s1(1) s'_def by blast
qed

lemma ready4_simps:
  "get_next ready4 a = None" "get_prev ready4 a = None"
  "is_waiting_node ready4 a = (11 \<le> a \<and> a \<le> 14)"
  "obj ready4 11 = Waiting_Thread_Node 1" "obj ready4 12 = Waiting_Thread_Node 2"
  "obj ready4 13 = Waiting_Thread_Node 3" "obj ready4 14 = Waiting_Thread_Node 4"
  "prio_of ready4 11 = 3" "prio_of ready4 12 = 7" "prio_of ready4 13 = 7" "prio_of ready4 14 = 5"
  by (simp_all add: ready4_def bss_def get_next_def get_prev_def is_waiting_node_def prio_of_def)

lemma ready4_order:
  "foldl (\<lambda>xs n. priority_insert (prio_of ready4) n xs) [] [11, 12, 13, 14] = [12, 13, 14, 11]"
  by (simp add: priority_insert_def ready4_simps)

section \<open>The tick handler on a queue of one-shot nodes\<close>

lemma is_one_shot_timestamp_node: "is_one_shot s x \<Longrightarrow> is_timestamp_node s x"
  by (simp add: is_one_shot_def is_timestamp_node_def split: object.splits)

lemma one_shot_dep:
  "obj s' = obj s \<Longrightarrow> tmr_period s' = tmr_period s \<Longrightarrow> is_one_shot s' x = is_one_shot s x"
  by (simp add: is_one_shot_def split: object.splits)

lemma timestamp_of_dep: "obj s' = obj s \<Longrightarrow> timestamp_of s' x = timestamp_of s x"
  by (simp add: timestamp_of_def)

lemma action_one_shot:
  assumes dl: "dlist s h (x # xs)" and os: "is_one_shot s x"
  shows "\<exists>s'. action s x = Some (Inr s') \<and> dlist s' h xs \<and> detached s' x \<and> obj s' = obj s \<and>
           tmr_period s' = tmr_period s \<and> fired s' = fired s \<and>
           (\<forall>y. y \<notin> set (h # x # xs) \<longrightarrow> lnk s' y = lnk s y)"
proof -
  from dl have "dlist s h ([] @ x # xs)" by simp
  from unlink_dlist [OF this] obtain s1 where
    s1: "unlink s x = Inr s1" "dlist s1 h xs" "detached s1 x" "obj s1 = obj s"
        "tmr_period s1 = tmr_period s" "fired s1 = fired s"
        "\<forall>y. y \<notin> set (h # x # xs) \<longrightarrow> lnk s1 y = lnk s y"
    by auto
  show ?thesis
  proof (cases "obj s x")
    case (Timeout_Thread_Node ts th)
    define s' where "s' = (if sched_state s1 th \<noteq> destroyed then resume s1 th else s1)"
    have l: "lnk s' = lnk s1" by (simp add: s'_def resume_def)
    have "action s x = Some (Inr s')"
      using Timeout_Thread_Node s1(1)
      by (simp add: action_def timeout_thread_node_action_def s'_def)
    moreover have "dlist s' h xs" using s1(2) dlist_lnk_cong [OF l] by simp
    moreover have "detached s' x" using s1(3) detached_lnk_cong [OF l] by simp
    moreover have "obj s' = obj s" "tmr_period s' = tmr_period s" "fired s' = fired s"
      using s1(4,5,6) by (simp_all add: s'_def resume_def)
    moreover have "\<forall>y. y \<notin> set (h # x # xs) \<longrightarrow> lnk s' y = lnk s y" using s1(7) l by simp
    ultimately show ?thesis by blast
  next
    case (Timer_Node ts tm)
    with os have "tmr_period s tm = None" by (simp add: is_one_shot_def)
    with s1(5) have "interrupt_service_routine s1 tm x = Some (Inr s1)"
      by (simp add: interrupt_service_routine_def)
    with Timer_Node s1(1) have "action s x = Some (Inr s1)"
      by (simp add: action_def timer_node_action_def)
    with s1 show ?thesis by blast
  next
    case Plain_Links
    with os show ?thesis by (simp add: is_one_shot_def)
  next
    case (Waiting_Thread_Node t)
    with os show ?thesis by (simp add: is_one_shot_def)
  qed
qed

lemma check_loop_one_shot:
  "dlist s h xs \<Longrightarrow> \<forall>x\<in>set xs. is_one_shot s x \<Longrightarrow>
   sorted_wrt (\<lambda>a b. timestamp_of s a \<le> timestamp_of s b) xs \<Longrightarrow>
   \<exists>s'. check_timestamp_loop s h now = Some (Inr s') \<and>
        dlist s' h (filter (\<lambda>x. timestamp_of s x > now) xs) \<and>
        fired s' = fired s @ map (\<lambda>x. (x, timestamp_of s x))
                               (filter (\<lambda>x. timestamp_of s x \<le> now) xs) \<and>
        (\<forall>x\<in>set xs. timestamp_of s x \<le> now \<longrightarrow> detached s' x) \<and>
        obj s' = obj s \<and> tmr_period s' = tmr_period s \<and>
        (\<forall>y. y \<notin> set (h # xs) \<longrightarrow> lnk s' y = lnk s y)"
proof (induction xs arbitrary: s)
  case Nil
  from dlist_empty_iff [OF Nil(1)] have "empty_list s h" by simp
  then have "check_timestamp_loop s h now = Some (Inr s)"
    by (subst check_timestamp_loop.simps) simp
  with Nil(1) show ?case by simp
next
  case (Cons x xs)
  note dl = Cons.prems(1)
  from dlist_empty_iff [OF dl] have ne: "\<not> empty_list s h" by simp
  from dlist_head [OF dl] have hd: "head s h = Some x" by (simp add: head_def)
  from Cons.prems(2) have "is_timestamp_node s x" by (simp add: is_one_shot_timestamp_node)
  then have ts: "timestamp s (Some x) = Inr (timestamp_of s x)" by (rule timestamp_key)
  show ?case
  proof (cases "now \<ge> timestamp_of s x")
    case True
    define sf where "sf = s\<lparr>fired := fired s @ [(x, timestamp_of s x)]\<rparr>"
    have l: "lnk sf = lnk s" by (simp add: sf_def)
    have dlf: "dlist sf h (x # xs)" using dl dlist_lnk_cong [OF l] by simp
    have of: "obj sf = obj s" "tmr_period sf = tmr_period s" by (simp_all add: sf_def)
    from Cons.prems(2) have "is_one_shot sf x" by (simp add: one_shot_dep [OF of])
    from action_one_shot [OF dlf this] obtain s1 where
      s1: "action sf x = Some (Inr s1)" "dlist s1 h xs" "detached s1 x" "obj s1 = obj sf"
          "tmr_period s1 = tmr_period sf" "fired s1 = fired sf"
          "\<forall>y. y \<notin> set (h # x # xs) \<longrightarrow> lnk s1 y = lnk sf y"
      by blast
    from s1(4,5) of have o1: "obj s1 = obj s" "tmr_period s1 = tmr_period s" by simp_all
    have 1: "\<forall>y\<in>set xs. is_one_shot s1 y" using Cons.prems(2) by (simp add: one_shot_dep [OF o1])
    have 2: "sorted_wrt (\<lambda>a b. timestamp_of s1 a \<le> timestamp_of s1 b) xs"
      using Cons.prems(3) by (simp add: timestamp_of_dep [OF o1(1)])
    from Cons.IH [OF s1(2) 1 2] obtain s' where
      s': "check_timestamp_loop s1 h now = Some (Inr s')"
          "dlist s' h (filter (\<lambda>x. timestamp_of s1 x > now) xs)"
          "fired s' = fired s1 @ map (\<lambda>x. (x, timestamp_of s1 x))
                               (filter (\<lambda>x. timestamp_of s1 x \<le> now) xs)"
          "\<forall>x\<in>set xs. timestamp_of s1 x \<le> now \<longrightarrow> detached s' x"
          "obj s' = obj s1" "tmr_period s' = tmr_period s1"
          "\<forall>y. y \<notin> set (h # xs) \<longrightarrow> lnk s' y = lnk s1 y"
      by blast
    have "x \<notin> set (h # xs)" using dl by (auto simp: dlist_def)
    with s'(7) have "lnk s' x = lnk s1 x" by blast
    with s1(3) have dx: "detached s' x" by (simp add: detached_def get_prev_def get_next_def)
    have fr: "\<forall>y. y \<notin> set (h # x # xs) \<longrightarrow> lnk s' y = lnk s y"
      using s'(7) s1(7) l by auto
    have "check_timestamp_loop s h now = Some (Inr s')"
      using ne hd ts True s1(1) s'(1)
      by (subst check_timestamp_loop.simps) (simp add: sf_def)
    moreover have "fired s' = fired s @ map (\<lambda>x. (x, timestamp_of s x))
                               (filter (\<lambda>x. timestamp_of s x \<le> now) (x # xs))"
      using s'(3) s1(6) True by (simp add: sf_def timestamp_of_dep [OF o1(1)])
    moreover have "dlist s' h (filter (\<lambda>x. timestamp_of s x > now) (x # xs))"
      using s'(2) True by (simp add: timestamp_of_dep [OF o1(1)])
    ultimately show ?thesis using s'(4,5,6) o1 dx fr
      by (auto simp: timestamp_of_dep [OF o1(1)])
  next
    case False
    then have lt: "now < timestamp_of s x" by simp
    with Cons.prems(3) have all: "\<forall>y\<in>set (x # xs). now < timestamp_of s y" by auto
    then have f: "filter (\<lambda>x. timestamp_of s x > now) (x # xs) = x # xs"
      "filter (\<lambda>x. timestamp_of s x \<le> now) (x # xs) = []"
      by (auto simp: filter_empty_conv not_le)
    have "check_timestamp_loop s h now = Some (Inr s)"
      using ne hd ts lt by (subst check_timestamp_loop.simps) simp
    moreover from all have "\<forall>y\<in>set (x # xs). \<not> timestamp_of s y \<le> now" by auto
    ultimately show ?thesis using dl unfolding f by simp
  qed
qed

lemma filter_due_prefix:
  "sorted_wrt (\<lambda>a b. (k a :: nat) \<le> k b) xs \<Longrightarrow>
   filter (\<lambda>x. k x \<le> now) xs = takeWhile (\<lambda>x. k x \<le> now) xs"
proof (induction xs)
  case Nil
  then show ?case by simp
next
  case (Cons x xs)
  show ?case
  proof (cases "k x \<le> now")
    case True
    with Cons show ?thesis by simp
  next
    case False
    with Cons.prems have "\<forall>y\<in>set xs. \<not> k y \<le> now" by auto
    with False show ?thesis by (simp add: filter_empty_conv)
  qed
qed

lemma sorted_due:
  "sorted_wrt (\<lambda>a b. (k a :: nat) \<le> k b) xs \<Longrightarrow>
   sorted (map snd (map (\<lambda>x. (x, k x)) (filter P xs)))"
  by (induction xs) (auto simp: sorted_wrt_map comp_def)

lemma timeouts4_simps:
  "get_next timeouts4 a = (if a = 0 then Some 0 else None)"
  "get_prev timeouts4 a = (if a = 0 then Some 0 else None)"
  "is_timestamp_node timeouts4 a = (1 \<le> a \<and> a \<le> 4)"
  "is_one_shot timeouts4 a = (1 \<le> a \<and> a \<le> 4)"
  "timestamp_of timeouts4 1 = 100" "timestamp_of timeouts4 (Suc 0) = 100"
  "timestamp_of timeouts4 2 = 50"
  "timestamp_of timeouts4 3 = 75" "timestamp_of timeouts4 4 = 50"
  "fired timeouts4 = []"
  by (auto simp: timeouts4_def bss_def get_next_def get_prev_def is_timestamp_node_def
        is_one_shot_def timestamp_of_def)

lemma timeouts4_order:
  "foldl (\<lambda>xs n. timestamp_insert (timestamp_of timeouts4) n xs) [] [1, 2, 3, 4] = [2, 4, 3, 1]"
  by (simp add: timestamp_insert_def timeouts4_simps)

section \<open>A periodic timer under the tick handler\<close>

lemma periodic_fire:
  assumes dl: "dlist s h [n]" and ob: "obj s n = Timer_Node ts tm"
    and pe: "tmr_period s tm = Some p" and tl: "tmr_list s tm = h"
  shows "\<exists>s'. action s n = Some (Inr s') \<and> dlist s' h [n] \<and>
           obj s' = (obj s)(n := Timer_Node (ts + p) tm) \<and>
           tmr_period s' = tmr_period s \<and> tmr_list s' = tmr_list s \<and> fired s' = fired s"
proof -
  from dl have "dlist s h ([] @ n # [])" by simp
  from unlink_dlist [OF this] obtain s1 where
    s1: "unlink s n = Inr s1" "dlist s1 h []" "detached s1 n" "obj s1 = obj s"
        "tmr_period s1 = tmr_period s" "tmr_list s1 = tmr_list s" "fired s1 = fired s"
    by auto
  define s2 where "s2 = s1\<lparr>obj := (obj s1)(n := Timer_Node (ts + p) tm)\<rparr>"
  have l: "lnk s2 = lnk s1" by (simp add: s2_def)
  have d2: "dlist s2 h []" using s1(2) dlist_lnk_cong [OF l] by simp
  have t2: "\<forall>x\<in>set (n # []). is_timestamp_node s2 x"
    by (simp add: s2_def is_timestamp_node_def)
  have e2: "detached s2 n" using s1(3) detached_lnk_cong [OF l] by simp
  from dl have "n \<notin> set (h # [])" by (auto simp: dlist_def)
  from clock_link_step [OF d2 t2 e2 this] obtain s3 where
    s3: "clock_timestamps_list_link s2 h n = Some (Inr s3)" "dlist s3 h [n]" "same_data s2 s3"
    by (auto simp: timestamp_insert_def)
  have "interrupt_service_routine s1 tm n = Some (Inr s3)"
    using s1(4,5,6) pe tl ob s3(1)
    by (simp add: interrupt_service_routine_def s2_def)
  with ob s1(1) have "action s n = Some (Inr s3)"
    by (simp add: action_def timer_node_action_def)
  moreover from s3(3) s1(4,5,6,7)
  have "obj s3 = (obj s)(n := Timer_Node (ts + p) tm)" "tmr_period s3 = tmr_period s"
    "tmr_list s3 = tmr_list s" "fired s3 = fired s"
    by (simp_all add: same_data_def s2_def)
  ultimately show ?thesis using s3(2) by blast
qed

lemma check_loop_step:
  assumes "\<not> empty_list s h" "head s h = Some x" "timestamp s (Some x) = Inr ts" "ts \<le> now"
    "action (s\<lparr>fired := fired s @ [(x, ts)]\<rparr>) x = Some (Inr s1)"
  shows "check_timestamp_loop s h now = check_timestamp_loop s1 h now"
  using assms by (subst check_timestamp_loop.simps) simp

lemma check_loop_periodic:
  "dlist s h [n] \<Longrightarrow> obj s n = Timer_Node ts tm \<Longrightarrow> tmr_period s tm = Some p \<Longrightarrow>
   tmr_list s tm = h \<Longrightarrow> k = 0 \<or> ts + (k - 1) * p \<le> now \<Longrightarrow> now < ts + k * p \<Longrightarrow>
   \<exists>s'. check_timestamp_loop s h now = Some (Inr s') \<and>
        fired s' = fired s @ map (\<lambda>i. (n, ts + i * p)) [0..<k] \<and>
        dlist s' h [n] \<and> obj s' n = Timer_Node (ts + k * p) tm"
proof (induction k arbitrary: s ts)
  case 0
  from dlist_empty_iff [OF 0(1)] have ne: "\<not> empty_list s h" by simp
  from dlist_head [OF 0(1)] have hd: "head s h = Some n" by (simp add: head_def)
  from 0(2) have ts: "timestamp s (Some n) = Inr ts" by (simp add: timestamp_def)
  from 0(6) have "\<not> ts \<le> now" by simp
  with ne hd ts have "check_timestamp_loop s h now = Some (Inr s)"
    by (subst check_timestamp_loop.simps) simp
  with 0(1,2) show ?case by simp
next
  case (Suc k)
  note dl = Suc.prems(1)
  from dlist_empty_iff [OF dl] have ne: "\<not> empty_list s h" by simp
  from dlist_head [OF dl] have hd: "head s h = Some n" by (simp add: head_def)
  from Suc.prems(2) have ts: "timestamp s (Some n) = Inr ts" by (simp add: timestamp_def)
  from Suc.prems(5) have le: "ts \<le> now" by simp
  define sf where "sf = s\<lparr>fired := fired s @ [(n, ts)]\<rparr>"
  have l: "lnk sf = lnk s" by (simp add: sf_def)
  have dlf: "dlist sf h [n]" using dl dlist_lnk_cong [OF l] by simp
  have "obj sf n = Timer_Node ts tm" "tmr_period sf tm = Some p" "tmr_list sf tm = h"
    using Suc.prems(2,3,4) by (simp_all add: sf_def)
  from periodic_fire [OF dlf this] obtain s1 where
    s1: "action sf n = Some (Inr s1)" "dlist s1 h [n]"
        "obj s1 = (obj sf)(n := Timer_Node (ts + p) tm)"
        "tmr_period s1 = tmr_period sf" "tmr_list s1 = tmr_list sf" "fired s1 = fired sf"
    by blast
  have st: "check_timestamp_loop s h now = check_timestamp_loop s1 h now"
    using ne hd ts le s1(1) unfolding sf_def by (rule check_loop_step)
  have 1: "obj s1 n = Timer_Node (ts + p) tm" using s1(3) by simp
  have 2: "tmr_period s1 tm = Some p" "tmr_list s1 tm = h"
    using s1(4,5) Suc.prems(3,4) by (simp_all add: sf_def)
  have 3: "k = 0 \<or> (ts + p) + (k - 1) * p \<le> now"
  proof (cases k)
    case 0
    then show ?thesis by simp
  next
    case (Suc j)
    with Suc.prems(5) show ?thesis by (simp add: algebra_simps)
  qed
  have 4: "now < (ts + p) + k * p" using Suc.prems(6) by (simp add: algebra_simps)
  from Suc.IH [OF s1(2) 1 2 3 4] obtain s' where
    s': "check_timestamp_loop s1 h now = Some (Inr s')"
        "fired s' = fired s1 @ map (\<lambda>i. (n, (ts + p) + i * p)) [0..<k]"
        "dlist s' h [n]" "obj s' n = Timer_Node ((ts + p) + k * p) tm"
    by blast
  have "map (\<lambda>i. (n, ts + i * p)) [0..<Suc k] =
        (n, ts) # map (\<lambda>i. (n, (ts + p) + i * p)) [0..<k]"
  proof -
    have "[0..<Suc k] = 0 # map Suc [0..<k]" by (simp add: upt_conv_Cons map_Suc_upt del: upt_Suc)
    then show ?thesis by (simp add: comp_def algebra_simps del: upt_Suc)
  qed
  with s'(2) s1(6) have "fired s' = fired s @ map (\<lambda>i. (n, ts + i * p)) [0..<Suc k]"
    by (simp add: sf_def del: upt_Suc)
  moreover from s'(4) have "obj s' n = Timer_Node (ts + Suc k * p) tm"
    by (simp add: algebra_simps)
  ultimately show ?case using st s'(1,3) by simp
qed

lemma periodic1_simps:
  "get_next periodic1 a = (if a = 0 then Some 1 else if a = 1 then Some 0 else None)"
  "get_prev periodic1 a = (if a = 0 then Some 1 else if a = 1 then Some 0 else None)"
  "obj periodic1 1 = Timer_Node 100 9" "tmr_period periodic1 9 = Some 50"
  "tmr_list periodic1 9 = 0" "fired periodic1 = []"
  by (simp_all add: periodic1_def bss_def get_next_def get_prev_def)

section \<open>The hierarchy lists on a ring\<close>

lemma children_link_dlist:
  assumes dl: "dlist s h xs" and det: "detached s (child_links s t)"
    and fresh: "child_links s t \<notin> set (h # xs)"
  shows "\<exists>s'. thread_children_list_link s h t = Inr s' \<and> dlist s' h (xs @ [child_links s t]) \<and>
           child_links s' = child_links s \<and>
           (\<forall>x. x \<notin> set (h # xs) \<and> x \<noteq> child_links s t \<longrightarrow> lnk s' x = lnk s x)"
proof -
  from dlist_tail [OF dl] have tl: "tail s h = Some (last (h # xs))" by (simp add: tail_def)
  from dl have "dlist s h (xs @ [])" by simp
  from insert_after_dlist' [OF this det] fresh obtain s' where
    s': "insert_after s (child_links s t) (Some (last (h # xs))) = Inr s'"
        "dlist s' h (xs @ child_links s t # [])" "same_data s s'"
        "\<forall>x. x \<notin> set (h # xs @ []) \<and> x \<noteq> child_links s t \<longrightarrow> lnk s' x = lnk s x"
    by auto
  from s'(1) tl have "thread_children_list_link s h t = Inr s'"
    by (simp only: thread_children_list_link_def)
  with s'(2,3,4) show ?thesis by (auto simp: same_data_def)
qed

lemma top_link_dlist:
  assumes st: "static_list s h xs" and det: "detached s (child_links s t)"
    and fresh: "child_links s t \<notin> set (h # xs)"
  shows "\<exists>s'. top_threads_list_link s h t = Inr s' \<and> dlist s' h (xs @ [child_links s t]) \<and>
           child_links s' = child_links s"
proof (cases "dlist s h xs")
  case True
  from dlist_tail [OF True] obtain y where "get_prev s h = Some y" by simp
  then have "top_threads_list_link s h t = thread_children_list_link s h t"
    by (simp add: top_threads_list_link_def thread_children_list_link_def)
  with children_link_dlist [OF True det fresh] show ?thesis by auto
next
  case False
  with st have z: "xs = []" "get_prev s h = None" "get_next s h = None"
    by (auto simp: static_list_def)
  from fresh have ne: "child_links s t \<noteq> h" by simp
  from first_insert [OF z(2) det ne] obtain s' where
    s': "insert_after (clear s h) (child_links s t) (Some h) = Inr s'" "dlist s' h [child_links s t]"
    by blast
  from insert_after_frame [OF s'(1)] have c: "child_links s' = child_links s" by simp
  from z(2) s'(1) have "top_threads_list_link s h t = Inr s'"
    by (simp add: top_threads_list_link_def tail_def)
  with s'(2) c z(1) show ?thesis by simp
qed

lemma ring2_child_links: "child_links ring2 t = t"
  by (simp add: ring2_def bss_def)

lemma bss_zero:
  "get_prev bss a = None" "get_next bss a = None" "child_links bss t = t"
  by (simp_all add: bss_def get_prev_def get_next_def)

section \<open>The claims\<close>

text \<open>
  C1.  On a wait list with header \<open>h\<close> and nodes \<open>xs\<close>, \<^verbatim>\<open>waiting_threads_list::link\<close>
  of a detached waiting node returns, and the list afterwards is \<open>priority_insert\<close>
  of the node: at the tail when the list is empty or \<open>p \<le>\<close> the priority of the tail,
  at the head when \<open>p >\<close> the priority of the head, and otherwise behind the first
  node, walking from the tail backward, whose priority is \<open>\<ge> p\<close>.  Every sequence of
  such calls with distinct detached nodes, on a list that is in nonincreasing priority
  order (the empty list is), returns and leaves the list in nonincreasing priority
  order from head to tail, the nodes of each priority in the order in which they
  were linked.  The instance proved after it is scenario S1: linking the priorities 5, 9, 5, 7, 9, 1
  (nodes 1 to 6) gives the nodes 2, 5, 4, 1, 3, 6, of priorities 9, 9, 7, 5, 5, 1.
\<close>

theorem waiting_link_priority_order:
  "(dlist s h xs \<and> (\<forall>x\<in>set (n # xs). is_waiting_node s x) \<and> detached s n \<and>
      n \<notin> set (h # xs) \<longrightarrow>
      (\<exists>s'. waiting_threads_list_link s h n = Some (Inr s') \<and>
            dlist s' h (priority_insert (prio_of s) n xs) \<and> prio_of s' = prio_of s)) \<and>
   (dlist s h xs \<and> sorted_wrt (\<lambda>a b. prio_of s a \<ge> prio_of s b) xs \<and>
      (\<forall>x\<in>set (ns @ xs). is_waiting_node s x) \<and> (\<forall>n\<in>set ns. detached s n) \<and>
      distinct ns \<and> set ns \<inter> set (h # xs) = {} \<longrightarrow>
      (\<exists>s' ys. link_all waiting_threads_list_link s h ns = Some (Inr s') \<and> dlist s' h ys \<and>
         ys = foldl (\<lambda>xs n. priority_insert (prio_of s) n xs) xs ns \<and>
         prio_of s' = prio_of s \<and>
         sorted_wrt (\<lambda>a b. prio_of s' a \<ge> prio_of s' b) ys \<and>
         (\<forall>p. filter (\<lambda>x. prio_of s' x = p) ys = filter (\<lambda>x. prio_of s' x = p) (xs @ ns))))"
proof (intro conjI impI)
  assume a: "dlist s h xs \<and> (\<forall>x\<in>set (n # xs). is_waiting_node s x) \<and> detached s n \<and>
      n \<notin> set (h # xs)"
  then obtain s' where s': "waiting_threads_list_link s h n = Some (Inr s')"
    "dlist s' h (priority_insert (prio_of s) n xs)" "same_data s s'"
    using waiting_link_step [of s h xs n] by blast
  from s'(3) data_dep(1) have "prio_of s' = prio_of s" unfolding same_data_def by blast
  with s' show "\<exists>s'. waiting_threads_list_link s h n = Some (Inr s') \<and>
            dlist s' h (priority_insert (prio_of s) n xs) \<and> prio_of s' = prio_of s"
    by blast
next
  assume a: "dlist s h xs \<and> sorted_wrt (\<lambda>a b. prio_of s a \<ge> prio_of s b) xs \<and>
      (\<forall>x\<in>set (ns @ xs). is_waiting_node s x) \<and> (\<forall>n\<in>set ns. detached s n) \<and>
      distinct ns \<and> set ns \<inter> set (h # xs) = {}"
  define ys where "ys = foldl (\<lambda>xs n. priority_insert (prio_of s) n xs) xs ns"
  from a waiting_link_all [of s h xs ns] obtain s' where
    s': "link_all waiting_threads_list_link s h ns = Some (Inr s')" "dlist s' h ys"
        "same_data s s'"
    unfolding ys_def by blast
  from s'(3) data_dep(3) have p: "prio_of s' = prio_of s" by blast
  from a priority_insert_all [of "prio_of s" xs ns]
  have "sorted_wrt (\<lambda>a b. prio_of s a \<ge> prio_of s b) ys"
    "\<forall>p. filter (\<lambda>x. prio_of s x = p) ys = filter (\<lambda>x. prio_of s x = p) (xs @ ns)"
    unfolding ys_def by blast+
  with s'(1,2) p
  show "\<exists>s' ys. link_all waiting_threads_list_link s h ns = Some (Inr s') \<and> dlist s' h ys \<and>
         ys = foldl (\<lambda>xs n. priority_insert (prio_of s) n xs) xs ns \<and>
         prio_of s' = prio_of s \<and>
         sorted_wrt (\<lambda>a b. prio_of s' a \<ge> prio_of s' b) ys \<and>
         (\<forall>p. filter (\<lambda>x. prio_of s' x = p) ys = filter (\<lambda>x. prio_of s' x = p) (xs @ ns))"
    unfolding ys_def [symmetric] by (intro exI [of _ s'] exI [of _ ys]) simp
qed

theorem waiting_link_priority_order_witness:
  "dlist waiters6 0 [] \<and>
   (\<exists>s'. waiting_threads_list_link waiters6 0 1 = Some (Inr s') \<and> dlist s' 0 [1]) \<and>
   (\<exists>s'. link_all waiting_threads_list_link waiters6 0 [1, 2, 3, 4, 5, 6] = Some (Inr s') \<and>
      dlist s' 0 [2, 5, 4, 1, 3, 6] \<and>
      map (prio_of s') [2, 5, 4, 1, 3, 6] = [9, 9, 7, 5, 5, 1])"
proof -
  have d: "dlist waiters6 0 []" by (simp add: dlist_def link_ok_def waiters6_simps)
  have h1: "(\<forall>x\<in>set (1 # []). is_waiting_node waiters6 x) \<and> detached waiters6 1 \<and>
      1 \<notin> set (0 # ([] :: nat list))"
    by (simp add: waiters6_simps detached_def)
  have h2: "sorted_wrt (\<lambda>a b. prio_of waiters6 a \<ge> prio_of waiters6 b) [] \<and>
      (\<forall>x\<in>set ([1, 2, 3, 4, 5, 6] @ []). is_waiting_node waiters6 x) \<and>
      (\<forall>n\<in>set [1, 2, 3, 4, 5, 6]. detached waiters6 n) \<and>
      distinct [1, 2, 3, 4, 5, 6 :: nat] \<and> set [1, 2, 3, 4, 5, 6] \<inter> set (0 # ([] :: nat list)) = {}"
    by (simp add: waiters6_simps detached_def)
  note t = waiting_link_priority_order [of waiters6 0 "[]" 1 "[1, 2, 3, 4, 5, 6]"]
  from t d h1 have "\<exists>s'. waiting_threads_list_link waiters6 0 1 = Some (Inr s') \<and>
      dlist s' 0 (priority_insert (prio_of waiters6) 1 [])" by blast
  then have a: "\<exists>s'. waiting_threads_list_link waiters6 0 1 = Some (Inr s') \<and> dlist s' 0 [1]"
    by (simp add: priority_insert_def)
  from t d h2 obtain s' where s': "link_all waiting_threads_list_link waiters6 0 [1, 2, 3, 4, 5, 6] = Some (Inr s')"
    "dlist s' 0 (foldl (\<lambda>xs n. priority_insert (prio_of waiters6) n xs) [] [1, 2, 3, 4, 5, 6])"
    "prio_of s' = prio_of waiters6"
    by blast
  from s'(2) have o: "dlist s' 0 [2, 5, 4, 1, 3, 6]" by (simp only: waiters6_order)
  from s'(3) have m: "map (prio_of s') [2, 5, 4, 1, 3, 6] = [9, 9, 7, 5, 5, 1]"
    by (simp add: waiters6_simps)
  have c: "\<exists>s'. link_all waiting_threads_list_link waiters6 0 [1, 2, 3, 4, 5, 6] = Some (Inr s') \<and>
      dlist s' 0 [2, 5, 4, 1, 3, 6] \<and>
      map (prio_of s') [2, 5, 4, 1, 3, 6] = [9, 9, 7, 5, 5, 1]"
    by (intro exI [of _ s'] conjI s'(1) o m)
  show ?thesis by (intro conjI d a c)
qed

text \<open>
  C2.  On a ready list whose head node \<open>x\<close> belongs to thread \<open>t\<close>,
  \<^verbatim>\<open>ready_threads_list::unlink_head\<close> unlinks \<open>x\<close>, sets the state of \<open>t\<close> to
  \<open>running\<close> and returns \<open>t\<close>; the list is left with the other nodes.
  \<^verbatim>\<open>ready_threads_list::link\<close> of a detached waiting node of thread \<open>t\<close> inserts it
  by the priority \<^verbatim>\<open>prio_\<close> of its thread (\<open>priority_insert\<close>) and sets the state of
  \<open>t\<close> to \<open>ready\<close>, and a sequence of such calls on the static list, from a zero
  header on, leaves the list in nonincreasing priority order, first linked first
  within a priority.  The instance proved after it is scenario S2: after linking A (node 11, thread 1,
  priority 3), B (12, 2, 7), C (13, 3, 7) and D (14, 4, 5), four calls of
  \<^verbatim>\<open>unlink_head\<close> return B, C, D and A, each in state \<open>running\<close>.
\<close>

theorem ready_dispatch:
  "(dlist s h (x # xs) \<and> obj s x = Waiting_Thread_Node t \<longrightarrow>
      (\<exists>s1 s'. unlink s x = Inr s1 \<and>
         s' = s1\<lparr>sched_state := (sched_state s1)(t := running)\<rparr> \<and>
         unlink_head s h = Inr (s', t) \<and> dlist s' h xs \<and> detached s' x \<and>
         sched_state s' t = running \<and> obj s' = obj s \<and> prio s' = prio s)) \<and>
   (dlist s h xs \<and> (\<forall>y\<in>set (n # xs). is_waiting_node s y) \<and> obj s n = Waiting_Thread_Node t \<and>
      detached s n \<and> n \<notin> set (h # xs) \<longrightarrow>
      (\<exists>s'. ready_threads_list_link s h n = Some (Inr s') \<and>
         dlist s' h (priority_insert (prio_of s) n xs) \<and>
         sched_state s' = (sched_state s)(t := ready) \<and> obj s' = obj s \<and> prio s' = prio s)) \<and>
   (static_list s h [] \<and> (\<forall>n\<in>set ns. is_waiting_node s n \<and> detached s n) \<and> distinct ns \<and>
      h \<notin> set ns \<longrightarrow>
      (\<exists>s' ys. link_all ready_threads_list_link s h ns = Some (Inr s') \<and> static_list s' h ys \<and>
         ys = foldl (\<lambda>xs n. priority_insert (prio_of s) n xs) [] ns \<and>
         obj s' = obj s \<and> prio s' = prio s \<and>
         sorted_wrt (\<lambda>a b. prio_of s a \<ge> prio_of s b) ys \<and>
         (\<forall>p. filter (\<lambda>x. prio_of s x = p) ys = filter (\<lambda>x. prio_of s x = p) ns)))"
proof (intro conjI impI)
  assume "dlist s h (x # xs) \<and> obj s x = Waiting_Thread_Node t"
  then show "\<exists>s1 s'. unlink s x = Inr s1 \<and>
         s' = s1\<lparr>sched_state := (sched_state s1)(t := running)\<rparr> \<and>
         unlink_head s h = Inr (s', t) \<and> dlist s' h xs \<and> detached s' x \<and>
         sched_state s' t = running \<and> obj s' = obj s \<and> prio s' = prio s"
    using unlink_head_dlist [of s h x xs t] by blast
next
  assume "dlist s h xs \<and> (\<forall>y\<in>set (n # xs). is_waiting_node s y) \<and> obj s n = Waiting_Thread_Node t \<and>
      detached s n \<and> n \<notin> set (h # xs)"
  then show "\<exists>s'. ready_threads_list_link s h n = Some (Inr s') \<and>
         dlist s' h (priority_insert (prio_of s) n xs) \<and>
         sched_state s' = (sched_state s)(t := ready) \<and> obj s' = obj s \<and> prio s' = prio s"
    using ready_link_step' [of s h xs n t] by blast
next
  assume a: "static_list s h [] \<and> (\<forall>n\<in>set ns. is_waiting_node s n \<and> detached s n) \<and> distinct ns \<and>
      h \<notin> set ns"
  define ys where "ys = foldl (\<lambda>xs n. priority_insert (prio_of s) n xs) [] ns"
  from a ready_link_all_static [of s h ns] obtain s' where
    s': "link_all ready_threads_list_link s h ns = Some (Inr s')" "static_list s' h ys"
        "obj s' = obj s" "prio s' = prio s"
    unfolding ys_def by blast
  from priority_insert_all [of "prio_of s" "[]" ns]
  have "sorted_wrt (\<lambda>a b. prio_of s a \<ge> prio_of s b) ys"
    "\<forall>p. filter (\<lambda>x. prio_of s x = p) ys = filter (\<lambda>x. prio_of s x = p) ns"
    unfolding ys_def by simp_all
  with s'
  show "\<exists>s' ys. link_all ready_threads_list_link s h ns = Some (Inr s') \<and> static_list s' h ys \<and>
         ys = foldl (\<lambda>xs n. priority_insert (prio_of s) n xs) [] ns \<and>
         obj s' = obj s \<and> prio s' = prio s \<and>
         sorted_wrt (\<lambda>a b. prio_of s a \<ge> prio_of s b) ys \<and>
         (\<forall>p. filter (\<lambda>x. prio_of s x = p) ys = filter (\<lambda>x. prio_of s x = p) ns)"
    unfolding ys_def [symmetric] by (intro exI [of _ s'] exI [of _ ys]) simp
qed

theorem ready_dispatch_witness:
  "static_list ready4 0 [] \<and>
   (\<exists>s4 s5 s6 s7 s8.
      link_all ready_threads_list_link ready4 0 [11, 12, 13, 14] = Some (Inr s4) \<and>
      dlist s4 0 [12, 13, 14, 11] \<and>
      unlink_head s4 0 = Inr (s5, 2) \<and> sched_state s5 2 = running \<and>
      unlink_head s5 0 = Inr (s6, 3) \<and> sched_state s6 3 = running \<and>
      unlink_head s6 0 = Inr (s7, 4) \<and> sched_state s7 4 = running \<and>
      unlink_head s7 0 = Inr (s8, 1) \<and> sched_state s8 1 = running \<and>
      dlist s8 0 [] \<and>
      (\<exists>s9. ready_threads_list_link s8 0 11 = Some (Inr s9) \<and> dlist s9 0 [11] \<and>
            sched_state s9 1 = ready))"
proof -
  have st: "static_list ready4 0 []" by (simp add: static_list_def ready4_simps)
  have h: "(\<forall>n\<in>set [11, 12, 13, 14]. is_waiting_node ready4 n \<and> detached ready4 n) \<and>
      distinct [11, 12, 13, 14 :: nat] \<and> 0 \<notin> set [11, 12, 13, 14 :: nat]"
    by (simp add: ready4_simps detached_def)
  from ready_dispatch [of ready4 0 _ _ _ _ "[11, 12, 13, 14]"] st h obtain s4 where
    s4: "link_all ready_threads_list_link ready4 0 [11, 12, 13, 14] = Some (Inr s4)"
        "static_list s4 0 (foldl (\<lambda>xs n. priority_insert (prio_of ready4) n xs) [] [11, 12, 13, 14])"
        "obj s4 = obj ready4"
    by blast
  from s4(2) have d4: "dlist s4 0 [12, 13, 14, 11]"
    unfolding ready4_order by (simp add: static_list_def)
  from s4(3) have o4: "obj s4 12 = Waiting_Thread_Node 2" by (simp add: ready4_simps)
  from ready_dispatch [of s4 0 12 "[13, 14, 11]" 2] d4 o4 obtain s5 where
    s5: "unlink_head s4 0 = Inr (s5, 2)" "dlist s5 0 [13, 14, 11]" "sched_state s5 2 = running"
        "obj s5 = obj s4"
    by blast
  from s5(4) s4(3) have o5: "obj s5 13 = Waiting_Thread_Node 3" by (simp add: ready4_simps)
  from ready_dispatch [of s5 0 13 "[14, 11]" 3] s5(2) o5 obtain s6 where
    s6: "unlink_head s5 0 = Inr (s6, 3)" "dlist s6 0 [14, 11]" "sched_state s6 3 = running"
        "obj s6 = obj s5"
    by blast
  from s6(4) s5(4) s4(3) have o6: "obj s6 14 = Waiting_Thread_Node 4" by (simp add: ready4_simps)
  from ready_dispatch [of s6 0 14 "[11]" 4] s6(2) o6 obtain s7 where
    s7: "unlink_head s6 0 = Inr (s7, 4)" "dlist s7 0 [11]" "sched_state s7 4 = running"
        "obj s7 = obj s6"
    by blast
  from s7(4) s6(4) s5(4) s4(3) have o7: "obj s7 11 = Waiting_Thread_Node 1"
    by (simp add: ready4_simps)
  from ready_dispatch [of s7 0 11 "[]" 1] s7(2) o7 obtain s8 where
    s8: "unlink_head s7 0 = Inr (s8, 1)" "dlist s8 0 []" "sched_state s8 1 = running"
        "obj s8 = obj s7" "detached s8 11"
    by blast
  from s8(4) o7 have o8: "obj s8 11 = Waiting_Thread_Node 1" by simp
  then have w8: "\<forall>y\<in>set (11 # []). is_waiting_node s8 y" by (simp add: is_waiting_node_def)
  have "11 \<notin> set (0 # ([] :: nat list))" by simp
  with ready_dispatch [of s8 0 _ "[]" 1 11] s8(2,5) o8 w8 obtain s9 where
    s9: "ready_threads_list_link s8 0 11 = Some (Inr s9)"
        "dlist s9 0 (priority_insert (prio_of s8) 11 [])"
        "sched_state s9 = (sched_state s8)(1 := ready)"
    by blast
  from s9(2) have d9: "dlist s9 0 [11]" by (simp add: priority_insert_def)
  from s9(3) have r9: "sched_state s9 1 = ready" by simp
  have e9: "\<exists>s9. ready_threads_list_link s8 0 11 = Some (Inr s9) \<and> dlist s9 0 [11] \<and>
            sched_state s9 1 = ready"
    by (intro exI [of _ s9] conjI s9(1) d9 r9)
  have "\<exists>s4 s5 s6 s7 s8.
      link_all ready_threads_list_link ready4 0 [11, 12, 13, 14] = Some (Inr s4) \<and>
      dlist s4 0 [12, 13, 14, 11] \<and>
      unlink_head s4 0 = Inr (s5, 2) \<and> sched_state s5 2 = running \<and>
      unlink_head s5 0 = Inr (s6, 3) \<and> sched_state s6 3 = running \<and>
      unlink_head s6 0 = Inr (s7, 4) \<and> sched_state s7 4 = running \<and>
      unlink_head s7 0 = Inr (s8, 1) \<and> sched_state s8 1 = running \<and>
      dlist s8 0 [] \<and>
      (\<exists>s9. ready_threads_list_link s8 0 11 = Some (Inr s9) \<and> dlist s9 0 [11] \<and>
            sched_state s9 1 = ready)"
    by (rule exI [of _ s4], rule exI [of _ s5], rule exI [of _ s6], rule exI [of _ s7],
        rule exI [of _ s8])
       (intro conjI s4(1) d4 s5(1,3) s6(1,3) s7(1,3) s8(1,2,3) e9)
  with st show ?thesis by (intro conjI)
qed

text \<open>
  C3.  On a clock list whose nodes \<open>xs\<close> are in nondecreasing time stamp order and
  whose actions do not enqueue again (timeout nodes, timers without a period),
  \<^verbatim>\<open>check_timestamp (now)\<close> returns; it has called \<^verbatim>\<open>action ()\<close> on exactly the nodes
  with time stamp \<open>\<le> now\<close> (the test is inclusive), which are a prefix of the list,
  in list order and so in nondecreasing time stamp order; these nodes are detached
  afterwards and the nodes with time stamp \<open>> now\<close> are left on the list.  A sequence
  of \<^verbatim>\<open>clock_timestamps_list::link\<close> calls on an empty constructed list builds such a
  list: nondecreasing time stamps, equal time stamps in the order of the calls.  The
  instance proved after it is scenario S3: after enqueuing 100, 50, 75, 50 (nodes 1 to 4),
  \<^verbatim>\<open>check_timestamp (60)\<close> fires nodes 2 and 4 in this order and
  \<^verbatim>\<open>check_timestamp (200)\<close> then fires node 3 (75) and node 1 (100).
\<close>

theorem check_timestamp_fires_due_prefix:
  "(dlist s h xs \<and> (\<forall>x\<in>set xs. is_one_shot s x) \<and>
      sorted_wrt (\<lambda>a b. timestamp_of s a \<le> timestamp_of s b) xs \<longrightarrow>
      (\<exists>s' due. check_timestamp s h now = Some (Inr s') \<and>
         due = filter (\<lambda>x. timestamp_of s x \<le> now) xs \<and>
         due = takeWhile (\<lambda>x. timestamp_of s x \<le> now) xs \<and>
         fired s' = fired s @ map (\<lambda>x. (x, timestamp_of s x)) due \<and>
         sorted (map snd (map (\<lambda>x. (x, timestamp_of s x)) due)) \<and>
         dlist s' h (filter (\<lambda>x. timestamp_of s x > now) xs) \<and>
         (\<forall>x\<in>set due. detached s' x) \<and>
         obj s' = obj s \<and> tmr_period s' = tmr_period s)) \<and>
   (dlist s h [] \<and> (\<forall>n\<in>set ns. is_timestamp_node s n \<and> detached s n) \<and> distinct ns \<and>
      h \<notin> set ns \<longrightarrow>
      (\<exists>s' ys. link_all clock_timestamps_list_link s h ns = Some (Inr s') \<and> dlist s' h ys \<and>
         ys = foldl (\<lambda>xs n. timestamp_insert (timestamp_of s) n xs) [] ns \<and>
         sorted_wrt (\<lambda>a b. timestamp_of s a \<le> timestamp_of s b) ys \<and>
         (\<forall>t. filter (\<lambda>x. timestamp_of s x = t) ys = filter (\<lambda>x. timestamp_of s x = t) ns) \<and>
         same_data s s'))"
proof (intro conjI impI)
  assume a: "dlist s h xs \<and> (\<forall>x\<in>set xs. is_one_shot s x) \<and>
      sorted_wrt (\<lambda>a b. timestamp_of s a \<le> timestamp_of s b) xs"
  define due where "due = filter (\<lambda>x. timestamp_of s x \<le> now) xs"
  from a have dl: "dlist s h xs" by simp
  from dlist_head [OF dl] have "check_timestamp s h now = check_timestamp_loop s h now"
    by (simp add: check_timestamp_def)
  with a check_loop_one_shot [of s h xs now] obtain s' where
    s': "check_timestamp s h now = Some (Inr s')"
        "dlist s' h (filter (\<lambda>x. timestamp_of s x > now) xs)"
        "fired s' = fired s @ map (\<lambda>x. (x, timestamp_of s x)) due"
        "\<forall>x\<in>set xs. timestamp_of s x \<le> now \<longrightarrow> detached s' x"
        "obj s' = obj s" "tmr_period s' = tmr_period s"
    unfolding due_def by auto
  from a have p: "due = takeWhile (\<lambda>x. timestamp_of s x \<le> now) xs"
    unfolding due_def by (simp add: filter_due_prefix)
  from a have q: "sorted (map snd (map (\<lambda>x. (x, timestamp_of s x)) due))"
    unfolding due_def by (simp only: sorted_due)
  from s'(4) have r: "\<forall>x\<in>set due. detached s' x" by (simp add: due_def)
  show "\<exists>s' due. check_timestamp s h now = Some (Inr s') \<and>
         due = filter (\<lambda>x. timestamp_of s x \<le> now) xs \<and>
         due = takeWhile (\<lambda>x. timestamp_of s x \<le> now) xs \<and>
         fired s' = fired s @ map (\<lambda>x. (x, timestamp_of s x)) due \<and>
         sorted (map snd (map (\<lambda>x. (x, timestamp_of s x)) due)) \<and>
         dlist s' h (filter (\<lambda>x. timestamp_of s x > now) xs) \<and>
         (\<forall>x\<in>set due. detached s' x) \<and>
         obj s' = obj s \<and> tmr_period s' = tmr_period s"
    by (rule exI [of _ s'], rule exI [of _ due])
       (intro conjI s'(1) due_def p s'(3) q s'(2) r s'(5) s'(6))
next
  assume a: "dlist s h [] \<and> (\<forall>n\<in>set ns. is_timestamp_node s n \<and> detached s n) \<and> distinct ns \<and>
      h \<notin> set ns"
  define ys where "ys = foldl (\<lambda>xs n. timestamp_insert (timestamp_of s) n xs) [] ns"
  from a clock_link_all [of s h "[]" ns] obtain s' where
    s': "link_all clock_timestamps_list_link s h ns = Some (Inr s')" "dlist s' h ys"
        "same_data s s'"
    unfolding ys_def by auto
  from timestamp_insert_all [of "timestamp_of s" "[]" ns]
  have "sorted_wrt (\<lambda>a b. timestamp_of s a \<le> timestamp_of s b) ys"
    "\<forall>t. filter (\<lambda>x. timestamp_of s x = t) ys = filter (\<lambda>x. timestamp_of s x = t) ns"
    unfolding ys_def by simp_all
  with s'
  show "\<exists>s' ys. link_all clock_timestamps_list_link s h ns = Some (Inr s') \<and> dlist s' h ys \<and>
         ys = foldl (\<lambda>xs n. timestamp_insert (timestamp_of s) n xs) [] ns \<and>
         sorted_wrt (\<lambda>a b. timestamp_of s a \<le> timestamp_of s b) ys \<and>
         (\<forall>t. filter (\<lambda>x. timestamp_of s x = t) ys = filter (\<lambda>x. timestamp_of s x = t) ns) \<and>
         same_data s s'"
    unfolding ys_def [symmetric] by (intro exI [of _ s'] exI [of _ ys]) simp
qed

theorem check_timestamp_fires_due_prefix_witness:
  "dlist timeouts4 0 [] \<and>
   (\<exists>s1 s2 s3.
      link_all clock_timestamps_list_link timeouts4 0 [1, 2, 3, 4] = Some (Inr s1) \<and>
      dlist s1 0 [2, 4, 3, 1] \<and> fired s1 = [] \<and>
      check_timestamp s1 0 60 = Some (Inr s2) \<and>
      fired s2 = [(2, 50), (4, 50)] \<and> dlist s2 0 [3, 1] \<and>
      check_timestamp s2 0 200 = Some (Inr s3) \<and>
      fired s3 = [(2, 50), (4, 50), (3, 75), (1, 100)] \<and> dlist s3 0 [])"
proof -
  have d: "dlist timeouts4 0 []" by (simp add: dlist_def link_ok_def timeouts4_simps)
  have h: "(\<forall>n\<in>set [1, 2, 3, 4]. is_timestamp_node timeouts4 n \<and> detached timeouts4 n) \<and>
      distinct [1, 2, 3, 4 :: nat] \<and> 0 \<notin> set [1, 2, 3, 4 :: nat]"
    by (simp add: timeouts4_simps detached_def)
  from check_timestamp_fires_due_prefix [of timeouts4 0 "[]" _ "[1, 2, 3, 4]"] d h obtain s1 where
    s1: "link_all clock_timestamps_list_link timeouts4 0 [1, 2, 3, 4] = Some (Inr s1)"
        "dlist s1 0 (foldl (\<lambda>xs n. timestamp_insert (timestamp_of timeouts4) n xs) [] [1, 2, 3, 4])"
        "same_data timeouts4 s1"
    by blast
  from s1(2) have d1: "dlist s1 0 [2, 4, 3, 1]" by (simp only: timeouts4_order)
  from s1(3) have o1: "obj s1 = obj timeouts4" "tmr_period s1 = tmr_period timeouts4"
    and f1: "fired s1 = []"
    by (simp_all add: same_data_def timeouts4_simps)
  have t1: "timestamp_of s1 = timestamp_of timeouts4" "is_one_shot s1 = is_one_shot timeouts4"
    using o1 by (auto simp: fun_eq_iff timestamp_of_dep one_shot_dep)
  have p1: "(\<forall>x\<in>set [2, 4, 3, 1]. is_one_shot s1 x) \<and>
      sorted_wrt (\<lambda>a b. timestamp_of s1 a \<le> timestamp_of s1 b) [2, 4, 3, 1]"
    by (simp add: t1 timeouts4_simps)
  from check_timestamp_fires_due_prefix [of s1 0 "[2, 4, 3, 1]" 60] d1 p1 obtain s2 where
    s2: "check_timestamp s1 0 60 = Some (Inr s2)"
        "fired s2 = fired s1 @ map (\<lambda>x. (x, timestamp_of s1 x))
                                 (filter (\<lambda>x. timestamp_of s1 x \<le> 60) [2, 4, 3, 1])"
        "dlist s2 0 (filter (\<lambda>x. timestamp_of s1 x > 60) [2, 4, 3, 1])"
        "obj s2 = obj s1" "tmr_period s2 = tmr_period s1"
    by blast
  from s2(2) f1 have f2: "fired s2 = [(2, 50), (4, 50)]" by (simp add: t1 timeouts4_simps)
  from s2(3) have d2: "dlist s2 0 [3, 1]" by (simp add: t1 timeouts4_simps)
  have t2: "timestamp_of s2 = timestamp_of timeouts4" "is_one_shot s2 = is_one_shot timeouts4"
    using o1 s2(4,5) by (auto simp: fun_eq_iff timestamp_of_dep one_shot_dep)
  have p2: "(\<forall>x\<in>set [3, 1]. is_one_shot s2 x) \<and>
      sorted_wrt (\<lambda>a b. timestamp_of s2 a \<le> timestamp_of s2 b) [3, 1]"
    by (simp add: t2 timeouts4_simps)
  from check_timestamp_fires_due_prefix [of s2 0 "[3, 1]" 200] d2 p2 obtain s3 where
    s3: "check_timestamp s2 0 200 = Some (Inr s3)"
        "fired s3 = fired s2 @ map (\<lambda>x. (x, timestamp_of s2 x))
                                 (filter (\<lambda>x. timestamp_of s2 x \<le> 200) [3, 1])"
        "dlist s3 0 (filter (\<lambda>x. timestamp_of s2 x > 200) [3, 1])"
    by blast
  from s3(2) f2 have f3: "fired s3 = [(2, 50), (4, 50), (3, 75), (1, 100)]"
    by (simp add: t2 timeouts4_simps)
  from s3(3) have d3: "dlist s3 0 []" by (simp add: t2 timeouts4_simps)
  have "\<exists>s1 s2 s3.
      link_all clock_timestamps_list_link timeouts4 0 [1, 2, 3, 4] = Some (Inr s1) \<and>
      dlist s1 0 [2, 4, 3, 1] \<and> fired s1 = [] \<and>
      check_timestamp s1 0 60 = Some (Inr s2) \<and>
      fired s2 = [(2, 50), (4, 50)] \<and> dlist s2 0 [3, 1] \<and>
      check_timestamp s2 0 200 = Some (Inr s3) \<and>
      fired s3 = [(2, 50), (4, 50), (3, 75), (1, 100)] \<and> dlist s3 0 []"
    by (rule exI [of _ s1], rule exI [of _ s2], rule exI [of _ s3])
       (intro conjI s1(1) d1 f1 s2(1) f2 d2 s3(1) f3 d3)
  with d show ?thesis by (intro conjI)
qed

text \<open>
  C4.  When \<^verbatim>\<open>check_timestamp\<close> has fired the head and \<^verbatim>\<open>action ()\<close> has returned the
  store \<open>s1\<close>, the call goes on as the loop on \<open>s1\<close>: it reads the head of the
  list again, whatever the action has done to the list.  With the timer service
  routine of the spec (the node is enqueued again one period after its own time
  stamp), a list that holds only the node \<open>n\<close> of a periodic timer, with time stamp
  \<open>ts\<close> and period \<open>p\<close>, is fired by one call \<^verbatim>\<open>check_timestamp (now)\<close> at
  \<open>ts\<close>, \<open>ts + p\<close>, ... as long as the time stamp is \<open>\<le> now\<close>: \<open>k\<close> times when
  \<open>ts + (k - 1) * p \<le> now < ts + k * p\<close>; the node is on the list afterwards with
  time stamp \<open>ts + k * p\<close>.  The instance proved after it is scenario S4: time stamp 100, period 50,
  \<^verbatim>\<open>check_timestamp (250)\<close> fires at 100, 150, 200 and 250 and leaves the node at 300.
\<close>

theorem check_timestamp_periodic_timer:
  "(\<not> empty_list s h \<and> head s h = Some x \<and> timestamp s (Some x) = Inr hts \<and> hts \<le> now \<and>
      action (s\<lparr>fired := fired s @ [(x, hts)]\<rparr>) x = Some (Inr s1) \<longrightarrow>
      check_timestamp s h now = check_timestamp_loop s1 h now) \<and>
   (dlist s h [n] \<and> obj s n = Timer_Node ts tm \<and> tmr_period s tm = Some p \<and>
      tmr_list s tm = h \<and> (k = 0 \<or> ts + (k - 1) * p \<le> now) \<and> now < ts + k * p \<longrightarrow>
      (\<exists>s'. check_timestamp s h now = Some (Inr s') \<and>
         fired s' = fired s @ map (\<lambda>i. (n, ts + i * p)) [0..<k] \<and>
         dlist s' h [n] \<and> obj s' n = Timer_Node (ts + k * p) tm))"
proof (intro conjI impI)
  assume a: "\<not> empty_list s h \<and> head s h = Some x \<and> timestamp s (Some x) = Inr hts \<and> hts \<le> now \<and>
      action (s\<lparr>fired := fired s @ [(x, hts)]\<rparr>) x = Some (Inr s1)"
  then have "get_next s h = Some x" by (simp add: head_def)
  then have "check_timestamp s h now = check_timestamp_loop s h now"
    by (simp add: check_timestamp_def)
  with a check_loop_step [of s h x hts now s1]
  show "check_timestamp s h now = check_timestamp_loop s1 h now" by simp
next
  assume a: "dlist s h [n] \<and> obj s n = Timer_Node ts tm \<and> tmr_period s tm = Some p \<and>
      tmr_list s tm = h \<and> (k = 0 \<or> ts + (k - 1) * p \<le> now) \<and> now < ts + k * p"
  then have dl: "dlist s h [n]" by simp
  from dlist_head [OF dl] have "check_timestamp s h now = check_timestamp_loop s h now"
    by (simp add: check_timestamp_def)
  with a check_loop_periodic [of s h n ts tm p k now]
  show "\<exists>s'. check_timestamp s h now = Some (Inr s') \<and>
         fired s' = fired s @ map (\<lambda>i. (n, ts + i * p)) [0..<k] \<and>
         dlist s' h [n] \<and> obj s' n = Timer_Node (ts + k * p) tm"
    by simp
qed

theorem check_timestamp_periodic_timer_witness:
  "dlist periodic1 0 [1] \<and> obj periodic1 1 = Timer_Node 100 9 \<and>
   tmr_period periodic1 9 = Some 50 \<and>
   (\<exists>s1. action (periodic1\<lparr>fired := fired periodic1 @ [(1, 100)]\<rparr>) 1 = Some (Inr s1) \<and>
      check_timestamp periodic1 0 250 = check_timestamp_loop s1 0 250) \<and>
   (\<exists>s'. check_timestamp periodic1 0 250 = Some (Inr s') \<and>
      fired s' = [(1, 100), (1, 150), (1, 200), (1, 250)] \<and>
      dlist s' 0 [1] \<and> obj s' 1 = Timer_Node 300 9)"
proof -
  have d: "dlist periodic1 0 [1]" by (simp add: dlist_def link_ok_def periodic1_simps)
  have o: "obj periodic1 1 = Timer_Node 100 9" "tmr_period periodic1 9 = Some 50"
    "tmr_list periodic1 9 = 0"
    by (fact periodic1_simps)+
  define sf where "sf = periodic1\<lparr>fired := fired periodic1 @ [(1, 100)]\<rparr>"
  have l: "lnk sf = lnk periodic1" by (simp add: sf_def)
  have "dlist sf 0 [1]" using d dlist_lnk_cong [OF l] by simp
  moreover have "obj sf 1 = Timer_Node 100 9" "tmr_period sf 9 = Some 50" "tmr_list sf 9 = 0"
    using o by (simp_all add: sf_def)
  ultimately obtain s1 where s1: "action sf 1 = Some (Inr s1)"
    using periodic_fire [of sf 0 1 100 9 50] by blast
  have pre: "\<not> empty_list periodic1 0" "head periodic1 0 = Some 1"
    "timestamp periodic1 (Some 1) = Inr 100" "(100::nat) \<le> 250"
    using o(1) by (simp_all add: empty_list_def head_def timestamp_def periodic1_simps)
  note t = check_timestamp_periodic_timer [of periodic1 0 1 100 250 s1 1 100 9 50 4]
  from t pre s1 have a: "check_timestamp periodic1 0 250 = check_timestamp_loop s1 0 250"
    unfolding sf_def by blast
  have "(4 = (0::nat) \<or> 100 + (4 - 1) * 50 \<le> (250::nat)) \<and> (250::nat) < 100 + 4 * 50" by simp
  with t d o obtain s' where
    s': "check_timestamp periodic1 0 250 = Some (Inr s')"
        "fired s' = fired periodic1 @ map (\<lambda>i. (1, 100 + i * 50)) [0..<4]"
        "dlist s' 0 [1]" "obj s' 1 = Timer_Node (100 + 4 * 50) 9"
    by blast
  have u: "[0..<4] = [0, 1, 2, 3 :: nat]" by (simp add: upt_rec)
  from s'(2) have f: "fired s' = [(1, 100), (1, 150), (1, 200), (1, 250)]"
    unfolding u by (simp add: periodic1_simps)
  from s'(4) have ob: "obj s' 1 = Timer_Node 300 9" by simp
  have b: "\<exists>s'. check_timestamp periodic1 0 250 = Some (Inr s') \<and>
      fired s' = [(1, 100), (1, 150), (1, 200), (1, 250)] \<and>
      dlist s' 0 [1] \<and> obj s' 1 = Timer_Node 300 9"
    by (intro exI [of _ s'] conjI s'(1) f s'(3) ob)
  have c: "\<exists>s1. action (periodic1\<lparr>fired := fired periodic1 @ [(1, 100)]\<rparr>) 1 = Some (Inr s1) \<and>
      check_timestamp periodic1 0 250 = check_timestamp_loop s1 0 250"
    using s1 a unfolding sf_def by (intro exI [of _ s1] conjI)
  show ?thesis by (intro conjI d o(1,2) c b)
qed

text \<open>
  C5.  \<^verbatim>\<open>waiting_threads_list::resume_one\<close> on an empty list returns the store as it
  is.  On a list with head node \<open>x\<close> of thread \<open>t\<close> it unlinks \<open>x\<close>, so the list
  is one node shorter whatever the state of \<open>t\<close>, and it calls \<^verbatim>\<open>resume\<close> on \<open>t\<close>
  exactly when the state of \<open>t\<close> is not \<open>destroyed\<close>.  When the only waiter is
  destroyed, the list is empty afterwards and no \<^verbatim>\<open>resume\<close> has been called.
\<close>

theorem resume_one_cases:
  "(empty_list s h \<longrightarrow> resume_one s h = Inr s) \<and>
   (dlist s h (x # xs) \<and> obj s x = Waiting_Thread_Node t \<longrightarrow>
      (\<exists>s1 s'. unlink s x = Inr s1 \<and>
         s' = (if sched_state s t \<noteq> destroyed then resume s1 t else s1) \<and>
         resume_one s h = Inr s' \<and> dlist s' h xs \<and> detached s' x \<and>
         resumed s' = (if sched_state s t \<noteq> destroyed then resumed s @ [t] else resumed s))) \<and>
   (dlist s h [x] \<and> obj s x = Waiting_Thread_Node t \<and> sched_state s t = destroyed \<longrightarrow>
      (\<exists>s'. resume_one s h = Inr s' \<and> dlist s' h [] \<and> empty_list s' h \<and>
            resumed s' = resumed s))"
proof -
  have main: "\<exists>s1 s'. unlink s x = Inr s1 \<and>
         s' = (if sched_state s t \<noteq> destroyed then resume s1 t else s1) \<and>
         resume_one s h = Inr s' \<and> dlist s' h xs \<and> detached s' x \<and>
         resumed s' = (if sched_state s t \<noteq> destroyed then resumed s @ [t] else resumed s)"
    if dl: "dlist s h (x # xs)" and ob: "obj s x = Waiting_Thread_Node t" for xs
  proof -
    from dl have "dlist s h ([] @ x # xs)" by simp
    from unlink_dlist [OF this] obtain s1 where
      s1: "unlink s x = Inr s1" "dlist s1 h xs" "detached s1 x"
          "sched_state s1 = sched_state s" "resumed s1 = resumed s"
      by auto
    define s' where "s' = (if sched_state s t \<noteq> destroyed then resume s1 t else s1)"
    have l: "lnk s' = lnk s1" by (simp add: s'_def resume_def)
    from dlist_head [OF dl] have hd: "head s h = Some x" by (simp add: head_def)
    from dlist_empty_iff [OF dl] have ne: "\<not> empty_list s h" by simp
    have "resume_one s h = Inr s'"
      using ne hd ob s1(1,4) by (simp add: resume_one_def node_thread_def s'_def)
    moreover have "dlist s' h xs" using s1(2) dlist_lnk_cong [OF l] by simp
    moreover have "detached s' x" using s1(3) detached_lnk_cong [OF l] by simp
    moreover have "resumed s' = (if sched_state s t \<noteq> destroyed then resumed s @ [t] else resumed s)"
      using s1(5) by (simp add: s'_def resume_def)
    ultimately show ?thesis using s1(1) s'_def by blast
  qed
  have "resume_one s h = Inr s" if "empty_list s h"
    using that by (simp add: resume_one_def)
  moreover
  have "\<exists>s'. resume_one s h = Inr s' \<and> dlist s' h [] \<and> empty_list s' h \<and> resumed s' = resumed s"
    if "dlist s h [x]" "obj s x = Waiting_Thread_Node t" "sched_state s t = destroyed"
    using main [OF that(1,2)] that(3) by (auto simp: dlist_empty_iff)
  ultimately show ?thesis using main by blast
qed

theorem resume_one_cases_witness:
  "empty_list bss 0 \<and> resume_one bss 0 = Inr bss \<and>
   dlist one_waiter 0 [1] \<and> obj one_waiter 1 = Waiting_Thread_Node 7 \<and>
   sched_state one_waiter 7 = destroyed \<and>
   (\<exists>s'. resume_one one_waiter 0 = Inr s' \<and> dlist s' 0 [] \<and> empty_list s' 0 \<and>
         detached s' 1 \<and> resumed s' = [])"
proof -
  have e: "empty_list bss 0" by (simp add: empty_list_def get_next_def bss_def)
  have d: "dlist one_waiter 0 [1]" by (simp add: dlist_def link_ok_def one_waiter_simps)
  from resume_one_cases [of bss 0 1 "[]" 7] e have "resume_one bss 0 = Inr bss" by blast
  moreover
  have o: "obj one_waiter 1 = Waiting_Thread_Node 7" "sched_state one_waiter 7 = destroyed"
    by (fact one_waiter_simps)+
  from resume_one_cases [of one_waiter 0 1 "[]" 7] d o
  obtain s' where "resume_one one_waiter 0 = Inr s'" "dlist s' 0 []" "detached s' 1"
    "resumed s' = resumed one_waiter"
    by auto
  then have "\<exists>s'. resume_one one_waiter 0 = Inr s' \<and> dlist s' 0 [] \<and> empty_list s' 0 \<and>
         detached s' 1 \<and> resumed s' = []"
    by (auto simp: one_waiter_simps dlist_empty_iff)
  ultimately show ?thesis using e d o by simp
qed

text \<open>
  C6.  A static list whose header is still zero (both pointers null) reports empty.
  \<^verbatim>\<open>clear\<close> makes the header point to itself, and the first \<^verbatim>\<open>link\<close> of the
  top-threads, the terminated and the ready list is \<^verbatim>\<open>insert_after\<close> run on the
  cleared store with the header as anchor.  For a detached node other than the header
  (for the ready list, a waiting node of thread \<open>t\<close>, whose state becomes \<open>ready\<close>)
  it succeeds; afterwards the list holds exactly that node and both header pointers
  are present.
\<close>

theorem static_list_first_link:
  assumes "get_prev s h = None" and "get_next s h = None"
  shows "empty_list s h \<and>
    get_prev (clear s h) h = Some h \<and> get_next (clear s h) h = Some h \<and>
    (detached s (child_links s t) \<and> child_links s t \<noteq> h \<longrightarrow>
       top_threads_list_link s h t = insert_after (clear s h) (child_links s t) (Some h) \<and>
       (\<exists>s'. top_threads_list_link s h t = Inr s' \<and> dlist s' h [child_links s t]
             \<and> get_prev s' h \<noteq> None \<and> get_next s' h \<noteq> None)) \<and>
    (detached s n \<and> n \<noteq> h \<longrightarrow>
       terminated_threads_list_link s h n = insert_after (clear s h) n (Some h) \<and>
       (\<exists>s'. terminated_threads_list_link s h n = Inr s' \<and> dlist s' h [n]
             \<and> get_prev s' h \<noteq> None \<and> get_next s' h \<noteq> None)) \<and>
    (detached s n \<and> n \<noteq> h \<and> obj s n = Waiting_Thread_Node t \<longrightarrow>
       (\<exists>s1 s'. insert_after (clear s h) n (Some h) = Inr s1 \<and>
             s' = s1\<lparr>sched_state := (sched_state s1)(t := ready)\<rparr> \<and>
             ready_threads_list_link s h n = Some (Inr s') \<and> dlist s' h [n]
             \<and> get_prev s' h \<noteq> None \<and> get_next s' h \<noteq> None))"
proof (intro conjI impI)
  show "empty_list s h" using assms by (simp add: empty_list_def)
  show "get_prev (clear s h) h = Some h" "get_next (clear s h) h = Some h" by simp_all
next
  assume a: "detached s (child_links s t) \<and> child_links s t \<noteq> h"
  show eq: "top_threads_list_link s h t = insert_after (clear s h) (child_links s t) (Some h)"
    using assms by (simp add: top_threads_list_link_def tail_def)
  from a first_insert [OF assms(1), of "child_links s t"]
  show "\<exists>s'. top_threads_list_link s h t = Inr s' \<and> dlist s' h [child_links s t]
             \<and> get_prev s' h \<noteq> None \<and> get_next s' h \<noteq> None"
    unfolding eq by auto
next
  assume a: "detached s n \<and> n \<noteq> h"
  show eq: "terminated_threads_list_link s h n = insert_after (clear s h) n (Some h)"
    using assms by (simp add: terminated_threads_list_link_def tail_def)
  from a first_insert [OF assms(1), of n]
  show "\<exists>s'. terminated_threads_list_link s h n = Inr s' \<and> dlist s' h [n]
             \<and> get_prev s' h \<noteq> None \<and> get_next s' h \<noteq> None"
    unfolding eq by auto
next
  assume a: "detached s n \<and> n \<noteq> h \<and> obj s n = Waiting_Thread_Node t"
  with first_insert [OF assms(1), of n] obtain s1 where
    s1: "insert_after (clear s h) n (Some h) = Inr s1" "dlist s1 h [n]"
        "get_prev s1 h = Some n" "get_next s1 h = Some n" "obj s1 = obj s"
    by blast
  define s' where "s' = s1\<lparr>sched_state := (sched_state s1)(t := ready)\<rparr>"
  have l: "lnk s' = lnk s1" by (simp add: s'_def)
  have "ready_threads_list_link s h n = Some (Inr s')"
    using assms a s1(1,5)
    by (simp add: ready_threads_list_link_def node_prio_def node_thread_def empty_list_def
          tail_def s'_def)
  moreover have "dlist s' h [n]" using s1(2) dlist_lnk_cong [OF l] by simp
  moreover have "get_prev s' h \<noteq> None" "get_next s' h \<noteq> None"
    using s1(3,4) l by (simp_all add: get_prev_def get_next_def)
  ultimately show "\<exists>s1 s'. insert_after (clear s h) n (Some h) = Inr s1 \<and>
             s' = s1\<lparr>sched_state := (sched_state s1)(t := ready)\<rparr> \<and>
             ready_threads_list_link s h n = Some (Inr s') \<and> dlist s' h [n]
             \<and> get_prev s' h \<noteq> None \<and> get_next s' h \<noteq> None"
    using s1(1) s'_def by blast
qed

theorem static_list_first_link_witness:
  "get_prev static_boot 0 = None \<and> get_next static_boot 0 = None \<and>
   empty_list static_boot 0 \<and>
   (\<exists>s'. top_threads_list_link static_boot 0 5 = Inr s' \<and> dlist s' 0 [5]
         \<and> get_prev s' 0 \<noteq> None \<and> get_next s' 0 \<noteq> None) \<and>
   (\<exists>s'. terminated_threads_list_link static_boot 0 2 = Inr s' \<and> dlist s' 0 [2]
         \<and> get_prev s' 0 \<noteq> None \<and> get_next s' 0 \<noteq> None) \<and>
   (\<exists>s'. ready_threads_list_link static_boot 0 2 = Some (Inr s') \<and> dlist s' 0 [2]
         \<and> get_prev s' 0 \<noteq> None \<and> get_next s' 0 \<noteq> None)"
proof -
  have z: "get_prev static_boot 0 = None" "get_next static_boot 0 = None"
    by (simp_all add: static_boot_simps)
  have d: "detached static_boot (child_links static_boot 5) \<and> child_links static_boot 5 \<noteq> 0"
    "detached static_boot 2 \<and> 2 \<noteq> (0::nat)"
    "obj static_boot 2 = Waiting_Thread_Node 5"
    by (simp_all add: detached_def static_boot_simps)
  note t = static_list_first_link [OF z, of 5 2]
  from t have "empty_list static_boot 0" by blast
  moreover from t d(1)
  have "\<exists>s'. top_threads_list_link static_boot 0 5 = Inr s' \<and> dlist s' 0 [child_links static_boot 5]
         \<and> get_prev s' 0 \<noteq> None \<and> get_next s' 0 \<noteq> None" by blast
  moreover from t d(2)
  have "\<exists>s'. terminated_threads_list_link static_boot 0 2 = Inr s' \<and> dlist s' 0 [2]
         \<and> get_prev s' 0 \<noteq> None \<and> get_next s' 0 \<noteq> None" by blast
  moreover from t d(2,3)
  have "\<exists>s'. ready_threads_list_link static_boot 0 2 = Some (Inr s') \<and> dlist s' 0 [2]
         \<and> get_prev s' 0 \<noteq> None \<and> get_next s' 0 \<noteq> None" by blast
  ultimately show ?thesis using z by (simp add: static_boot_simps)
qed

text \<open>
  C7.  \<^verbatim>\<open>unlink\<close> of a node whose two pointers are null returns with the store as it
  was, so no list changes, and a second \<^verbatim>\<open>unlink\<close> after any \<^verbatim>\<open>unlink\<close> that returned
  changes nothing.  For a node \<open>n\<close> of the list \<open>ys @ n # zs\<close> of header \<open>h\<close>,
  \<^verbatim>\<open>unlink\<close> makes the neighbour before \<open>n\<close> and the neighbour after \<open>n\<close> point to
  each other, leaves both pointers of \<open>n\<close> null, leaves the ring of \<open>h\<close> with the
  nodes \<open>ys @ zs\<close>, and writes to no object outside the list.
\<close>

theorem unlink_noop_idempotent_splice:
  "(detached s n \<longrightarrow> unlink s n = Inr s) \<and>
   (\<forall>s'. unlink s n = Inr s' \<longrightarrow> unlink s' n = Inr s') \<and>
   (dlist s h (ys @ n # zs) \<longrightarrow>
      (\<exists>s'. unlink s n = Inr s'
         \<and> get_next s' (last (h # ys)) = Some (hd (zs @ [h]))
         \<and> get_prev s' (hd (zs @ [h])) = Some (last (h # ys))
         \<and> get_prev s' n = None \<and> get_next s' n = None
         \<and> dlist s' h (ys @ zs)
         \<and> (\<forall>x. x \<notin> set (h # ys @ n # zs) \<longrightarrow> lnk s' x = lnk s x)))"
proof (intro conjI impI allI)
  assume "detached s n"
  then show "unlink s n = Inr s" by (rule unlink_detached)
next
  fix s' assume "unlink s n = Inr s'"
  then have "detached s' n" by (rule unlink_result_detached)
  then show "unlink s' n = Inr s'" by (rule unlink_detached)
next
  assume dl: "dlist s h (ys @ n # zs)"
  from unlink_dlist [OF dl] obtain s' where u: "unlink s n = Inr s'"
    and dl': "dlist s' h (ys @ zs)" and det: "detached s' n"
    and fr: "\<forall>x. x \<notin> set (h # ys @ n # zs) \<longrightarrow> lnk s' x = lnk s x"
    by blast
  from dl' have "link_ok s' (last (h # ys)) (hd (zs @ [h]))" by (simp add: dlist_split)
  with u dl' det fr
  show "\<exists>s'. unlink s n = Inr s'
         \<and> get_next s' (last (h # ys)) = Some (hd (zs @ [h]))
         \<and> get_prev s' (hd (zs @ [h])) = Some (last (h # ys))
         \<and> get_prev s' n = None \<and> get_next s' n = None
         \<and> dlist s' h (ys @ zs)
         \<and> (\<forall>x. x \<notin> set (h # ys @ n # zs) \<longrightarrow> lnk s' x = lnk s x)"
    by (auto simp: link_ok_def detached_def)
qed


theorem unlink_noop_idempotent_splice_witness:
  "detached bss 1 \<and> unlink bss 1 = Inr bss \<and>
   dlist ring2 0 [1, 2] \<and>
   (\<exists>s'. unlink ring2 1 = Inr s' \<and> unlink s' 1 = Inr s' \<and>
      get_next s' 0 = Some 2 \<and> get_prev s' 2 = Some 0 \<and>
      get_prev s' 1 = None \<and> get_next s' 1 = None \<and> dlist s' 0 [2])"
proof -
  have d: "detached bss 1" by (simp add: detached_def bss_def get_next_def get_prev_def)
  have r: "dlist ring2 0 ([] @ 1 # [2])" by (simp add: dlist_def link_ok_def ring2_simps)
  from unlink_noop_idempotent_splice [of bss 1 0 "[]" "[]"] d
  have "unlink bss 1 = Inr bss" by blast
  moreover
  from unlink_noop_idempotent_splice [of ring2 1 0 "[]" "[2]"] r
  have "\<exists>s'. unlink ring2 1 = Inr s' \<and> unlink s' 1 = Inr s' \<and>
      get_next s' 0 = Some 2 \<and> get_prev s' 2 = Some 0 \<and>
      get_prev s' 1 = None \<and> get_next s' 1 = None \<and> dlist s' 0 [2]"
    by auto
  ultimately show ?thesis using d r by simp
qed

text \<open>
  C8.  The ring of a header.  \<^verbatim>\<open>clear\<close> yields the ring of the header alone.  When
  the header \<open>h\<close> holds the nodes \<open>xs\<close>, following \<^verbatim>\<open>next\<close> from the header passes
  through exactly the \<open>length xs\<close> nodes of the list, in list order and none of them
  the header, and the step after the last node is back at the header; following
  \<^verbatim>\<open>prev\<close> does the same in reverse order.  Every node \<open>n\<close> of the list satisfies
  \<^verbatim>\<open>n.next.prev == n\<close> and \<^verbatim>\<open>n.prev.next == n\<close>.  \<^verbatim>\<open>insert_after\<close> of a detached node
  behind any object of the ring and \<^verbatim>\<open>unlink\<close> of any node of the list return and
  leave a ring, so every sequence of them on an initialised list does.
\<close>

theorem circular_invariant:
  "dlist (clear s h) h [] \<and>
   (dlist s h xs \<longrightarrow>
      follow_next s (Suc (length xs)) h = Some h \<and>
      (\<forall>k<length xs. follow_next s (Suc k) h = Some (xs ! k) \<and> xs ! k \<noteq> h) \<and>
      follow_prev s (Suc (length xs)) h = Some h \<and>
      (\<forall>k<length xs. follow_prev s (Suc k) h = Some (rev xs ! k) \<and> rev xs ! k \<noteq> h) \<and>
      (\<forall>n\<in>set xs. \<exists>a b. get_next s n = Some a \<and> get_prev s a = Some n \<and>
                          get_prev s n = Some b \<and> get_next s b = Some n)) \<and>
   (dlist s h (ys @ zs) \<and> detached s n \<and> n \<notin> set (h # ys @ zs) \<longrightarrow>
      (\<exists>s'. insert_after s n (Some (last (h # ys))) = Inr s' \<and> dlist s' h (ys @ n # zs))) \<and>
   (dlist s h (ys @ n # zs) \<longrightarrow>
      (\<exists>s'. unlink s n = Inr s' \<and> dlist s' h (ys @ zs)))"
proof (intro conjI impI allI ballI)
  show "dlist (clear s h) h []" by (rule dlist_clear)
next
  assume "dlist s h xs"
  then show "follow_next s (Suc (length xs)) h = Some h" by (rule dlist_follow_next)
next
  fix k assume "dlist s h xs" "k < length xs"
  then show "follow_next s (Suc k) h = Some (xs ! k)" by (rule dlist_follow_next)
next
  fix k assume "dlist s h xs" "k < length xs"
  then show "xs ! k \<noteq> h" by (auto simp: dlist_def)
next
  assume "dlist s h xs"
  then show "follow_prev s (Suc (length xs)) h = Some h" by (rule dlist_follow_prev)
next
  fix k assume "dlist s h xs" "k < length xs"
  then show "follow_prev s (Suc k) h = Some (rev xs ! k)" by (rule dlist_follow_prev)
next
  fix k assume "dlist s h xs" "k < length xs"
  then have "rev xs ! k \<in> set xs" "h \<notin> set xs"
    using nth_mem [of k "rev xs"] by (auto simp: dlist_def)
  then show "rev xs ! k \<noteq> h" by auto
next
  fix n assume "dlist s h xs" "n \<in> set xs"
  then show "\<exists>a b. get_next s n = Some a \<and> get_prev s a = Some n \<and>
                   get_prev s n = Some b \<and> get_next s b = Some n"
    by (rule dlist_neighbours)
next
  assume "dlist s h (ys @ zs) \<and> detached s n \<and> n \<notin> set (h # ys @ zs)"
  then show "\<exists>s'. insert_after s n (Some (last (h # ys))) = Inr s' \<and> dlist s' h (ys @ n # zs)"
    using insert_after_dlist [of s h ys zs n] by blast
next
  assume "dlist s h (ys @ n # zs)"
  then show "\<exists>s'. unlink s n = Inr s' \<and> dlist s' h (ys @ zs)"
    using unlink_dlist [of s h ys n zs] by blast
qed

theorem circular_invariant_witness:
  "dlist ring2 0 [1, 2] \<and>
   follow_next ring2 3 0 = Some 0 \<and> follow_next ring2 1 0 = Some 1 \<and> follow_next ring2 2 0 = Some 2 \<and>
   follow_prev ring2 3 0 = Some 0 \<and> follow_prev ring2 1 0 = Some 2 \<and> follow_prev ring2 2 0 = Some 1 \<and>
   detached ring2 7 \<and> 7 \<notin> set [0, 1, 2 :: nat] \<and>
   (\<exists>s'. insert_after ring2 7 (Some 1) = Inr s' \<and> dlist s' 0 [1, 7, 2]) \<and>
   (\<exists>s'. unlink ring2 1 = Inr s' \<and> dlist s' 0 [2])"
proof -
  have r: "dlist ring2 0 [1, 2]" by (simp add: dlist_def link_ok_def ring2_simps)
  have d: "detached ring2 7" by (simp add: detached_def ring2_simps)
  note t = circular_invariant [of ring2 0 "[1, 2]"]
  from t [of "[1]" "[2]" 7] r
  have f: "follow_next ring2 (Suc (length [1, 2 :: nat])) 0 = Some 0"
      "\<forall>k<length [1, 2 :: nat]. follow_next ring2 (Suc k) 0 = Some ([1, 2] ! k)"
      "follow_prev ring2 (Suc (length [1, 2 :: nat])) 0 = Some 0"
      "\<forall>k<length [1, 2 :: nat]. follow_prev ring2 (Suc k) 0 = Some (rev [1, 2] ! k)"
    by simp_all
  from f(2) have "follow_next ring2 (Suc 0) 0 = Some 1" "follow_next ring2 (Suc 1) 0 = Some 2"
    by force+
  moreover from f(4) have "follow_prev ring2 (Suc 0) 0 = Some 2" "follow_prev ring2 (Suc 1) 0 = Some 1"
    by force+
  moreover from t [of "[1]" "[2]" 7] r d
  have "\<exists>s'. insert_after ring2 7 (Some 1) = Inr s' \<and> dlist s' 0 [1, 7, 2]" by simp
  moreover from t [of "[]" "[2]" 1] r
  have "\<exists>s'. unlink ring2 1 = Inr s' \<and> dlist s' 0 [2]" by simp
  ultimately show ?thesis using r d f(1,3) by (simp add: numeral_3_eq_3 numeral_2_eq_2)
qed

text \<open>
  C9.  \<^verbatim>\<open>top_threads_list::link\<close> and \<^verbatim>\<open>thread_children_list::link\<close> both insert the
  one node \<^verbatim>\<open>child_links_\<close> of the thread.  On a children list that is a ring, and
  on a top-threads list that is a ring or still has a zero header, \<^verbatim>\<open>link\<close> of a
  thread whose \<^verbatim>\<open>child_links_\<close> are detached and not on the list returns, and the
  list afterwards is the old one with that node appended at the tail.  Once either
  \<^verbatim>\<open>link\<close> has returned, both pointers of the node are present, and linking the
  same thread again, into any list of either kind, stops at the assertion
  \<^verbatim>\<open>node.prev == nullptr\<close> of \<^verbatim>\<open>insert_after\<close>.  The node has one pair of pointers,
  so it cannot be a member of two different rings: if the header of one list is not
  on the ring of the other, the two lists do not both contain the node.  The instance
  proved after it links thread 7 into the children list at 3 first and then fails on
  the top list at 0, and the other way round.
\<close>

theorem hierarchy_lists_share_child_links:
  "(top_threads_list_link s h t = Inr s1 \<or> thread_children_list_link s h t = Inr s1 \<longrightarrow>
      get_prev s1 (child_links s t) \<noteq> None \<and> get_next s1 (child_links s t) \<noteq> None \<and>
      top_threads_list_link s1 h' t = Inl AssertFailed \<and>
      thread_children_list_link s1 h' t = Inl AssertFailed) \<and>
   (dlist s h xs \<and> dlist s h' ys \<and> h' \<notin> set (h # xs) \<longrightarrow>
      \<not> (child_links s t \<in> set xs \<and> child_links s t \<in> set ys)) \<and>
   (dlist s h xs \<and> detached s (child_links s t) \<and> child_links s t \<notin> set (h # xs) \<longrightarrow>
      (\<exists>s'. thread_children_list_link s h t = Inr s' \<and>
            dlist s' h (xs @ [child_links s t]) \<and> child_links s' = child_links s)) \<and>
   (static_list s h xs \<and> detached s (child_links s t) \<and> child_links s t \<notin> set (h # xs) \<longrightarrow>
      (\<exists>s'. top_threads_list_link s h t = Inr s' \<and>
            dlist s' h (xs @ [child_links s t]) \<and> child_links s' = child_links s))"
proof (intro conjI impI)
  assume a: "top_threads_list_link s h t = Inr s1 \<or> thread_children_list_link s h t = Inr s1"
  then obtain s0 a where ins: "insert_after s0 (child_links s t) a = Inr s1"
    and c0: "child_links s0 = child_links s"
    by (auto simp: top_threads_list_link_def thread_children_list_link_def Let_def
             split: if_splits)
  from insert_after_linked [OF ins] show p: "get_prev s1 (child_links s t) \<noteq> None"
    and "get_next s1 (child_links s t) \<noteq> None" by simp_all
  from insert_after_frame [OF ins] c0 have c1: "child_links s1 = child_links s" by simp
  from p c1 show "top_threads_list_link s1 h' t = Inl AssertFailed"
    by (auto simp: top_threads_list_link_def Let_def intro!: insert_after_assert)
  from p c1 show "thread_children_list_link s1 h' t = Inl AssertFailed"
    by (auto simp: thread_children_list_link_def intro!: insert_after_assert)
next
  assume "dlist s h xs \<and> dlist s h' ys \<and> h' \<notin> set (h # xs)"
  then show "\<not> (child_links s t \<in> set xs \<and> child_links s t \<in> set ys)"
    using rings_share [of s h xs h' ys "child_links s t"] by blast
next
  assume "dlist s h xs \<and> detached s (child_links s t) \<and> child_links s t \<notin> set (h # xs)"
  then show "\<exists>s'. thread_children_list_link s h t = Inr s' \<and>
            dlist s' h (xs @ [child_links s t]) \<and> child_links s' = child_links s"
    using children_link_dlist [of s h xs t] by blast
next
  assume "static_list s h xs \<and> detached s (child_links s t) \<and> child_links s t \<notin> set (h # xs)"
  then show "\<exists>s'. top_threads_list_link s h t = Inr s' \<and>
            dlist s' h (xs @ [child_links s t]) \<and> child_links s' = child_links s"
    using top_link_dlist [of s h xs t] by blast
qed

theorem hierarchy_lists_share_child_links_witness:
  "dlist ring2 0 [1, 2] \<and> dlist ring2 3 [4] \<and> detached ring2 (child_links ring2 7) \<and>
   (\<exists>s1. thread_children_list_link ring2 3 7 = Inr s1 \<and> dlist s1 3 [4, 7] \<and>
      get_prev s1 7 \<noteq> None \<and> get_next s1 7 \<noteq> None \<and>
      top_threads_list_link s1 0 7 = Inl AssertFailed \<and>
      thread_children_list_link s1 0 7 = Inl AssertFailed) \<and>
   (\<exists>s1. top_threads_list_link ring2 0 7 = Inr s1 \<and> dlist s1 0 [1, 2, 7] \<and>
      top_threads_list_link s1 3 7 = Inl AssertFailed \<and>
      thread_children_list_link s1 3 7 = Inl AssertFailed) \<and>
   static_list bss 0 [] \<and>
   (\<exists>s1. top_threads_list_link bss 0 1 = Inr s1 \<and> dlist s1 0 [1] \<and>
      get_prev s1 1 \<noteq> None \<and> get_next s1 1 \<noteq> None \<and>
      top_threads_list_link s1 3 1 = Inl AssertFailed \<and>
      thread_children_list_link s1 3 1 = Inl AssertFailed) \<and>
   \<not> (child_links ring2 1 \<in> set [1, 2] \<and> child_links ring2 1 \<in> set [4])"
proof -
  have r: "dlist ring2 0 [1, 2]" "dlist ring2 3 [4]"
    by (simp_all add: dlist_def link_ok_def ring2_simps)
  have d7: "detached ring2 (child_links ring2 7)"
    by (simp add: detached_def ring2_simps ring2_child_links)
  have f7: "child_links ring2 7 \<notin> set (3 # [4])" "child_links ring2 7 \<notin> set (0 # [1, 2])"
    by (simp_all add: ring2_child_links)
  have sr: "static_list ring2 0 [1, 2]" using r(1) by (simp add: static_list_def)
  from hierarchy_lists_share_child_links [where s = ring2 and h = 3 and t = 7 and xs = "[4]"]
    r(2) d7 f7(1)
  obtain s1 where s1: "thread_children_list_link ring2 3 7 = Inr s1"
    "dlist s1 3 ([4] @ [child_links ring2 7])"
    by blast
  from s1(2) have l1: "dlist s1 3 [4, 7]" by (simp add: ring2_child_links)
  from hierarchy_lists_share_child_links
    [where s = ring2 and h = 3 and t = 7 and ?s1.0 = s1 and h' = 0] s1(1)
  have p1: "get_prev s1 (child_links ring2 7) \<noteq> None" "get_next s1 (child_links ring2 7) \<noteq> None"
    "top_threads_list_link s1 0 7 = Inl AssertFailed"
    "thread_children_list_link s1 0 7 = Inl AssertFailed"
    by blast+
  have a: "\<exists>s1. thread_children_list_link ring2 3 7 = Inr s1 \<and> dlist s1 3 [4, 7] \<and>
      get_prev s1 7 \<noteq> None \<and> get_next s1 7 \<noteq> None \<and>
      top_threads_list_link s1 0 7 = Inl AssertFailed \<and>
      thread_children_list_link s1 0 7 = Inl AssertFailed"
    using p1(1,2) unfolding ring2_child_links
    by (intro exI [of _ s1] conjI s1(1) l1 p1(3,4))
  from hierarchy_lists_share_child_links [where s = ring2 and h = 0 and t = 7 and xs = "[1, 2]"]
    sr d7 f7(2)
  obtain s2 where s2: "top_threads_list_link ring2 0 7 = Inr s2"
    "dlist s2 0 ([1, 2] @ [child_links ring2 7])"
    by blast
  from s2(2) have l2: "dlist s2 0 [1, 2, 7]" by (simp add: ring2_child_links)
  from hierarchy_lists_share_child_links
    [where s = ring2 and h = 0 and t = 7 and ?s1.0 = s2 and h' = 3] s2(1)
  have p2: "top_threads_list_link s2 3 7 = Inl AssertFailed"
    "thread_children_list_link s2 3 7 = Inl AssertFailed"
    by blast+
  have b: "\<exists>s1. top_threads_list_link ring2 0 7 = Inr s1 \<and> dlist s1 0 [1, 2, 7] \<and>
      top_threads_list_link s1 3 7 = Inl AssertFailed \<and>
      thread_children_list_link s1 3 7 = Inl AssertFailed"
    by (intro exI [of _ s2] conjI s2(1) l2 p2)
  have sb: "static_list bss 0 []" by (simp add: static_list_def bss_zero)
  have db: "detached bss (child_links bss 1)" "child_links bss 1 \<notin> set (0 # [])"
    by (simp_all add: detached_def bss_zero)
  from hierarchy_lists_share_child_links [where s = bss and h = 0 and t = 1 and xs = "[]"] sb db
  obtain s3 where s3: "top_threads_list_link bss 0 1 = Inr s3"
    "dlist s3 0 ([] @ [child_links bss 1])"
    by blast
  from s3(2) have l3: "dlist s3 0 [1]" by (simp add: bss_zero)
  from hierarchy_lists_share_child_links
    [where s = bss and h = 0 and t = 1 and ?s1.0 = s3 and h' = 3] s3(1)
  have p3: "get_prev s3 (child_links bss 1) \<noteq> None" "get_next s3 (child_links bss 1) \<noteq> None"
    "top_threads_list_link s3 3 1 = Inl AssertFailed"
    "thread_children_list_link s3 3 1 = Inl AssertFailed"
    by blast+
  have c: "\<exists>s1. top_threads_list_link bss 0 1 = Inr s1 \<and> dlist s1 0 [1] \<and>
      get_prev s1 1 \<noteq> None \<and> get_next s1 1 \<noteq> None \<and>
      top_threads_list_link s1 3 1 = Inl AssertFailed \<and>
      thread_children_list_link s1 3 1 = Inl AssertFailed"
    using p3(1,2) unfolding bss_zero
    by (intro exI [of _ s3] conjI s3(1) l3 p3(3,4))
  have "3 \<notin> set (0 # [1, 2 :: nat])" by simp
  with hierarchy_lists_share_child_links
    [where s = ring2 and h = 0 and t = 1 and xs = "[1, 2]" and h' = 3 and ys = "[4]"] r
  have e: "\<not> (child_links ring2 1 \<in> set [1, 2] \<and> child_links ring2 1 \<in> set [4])" by blast
  show ?thesis by (intro conjI r d7 a b sb c e)
qed

text \<open>
  C10.  \<^verbatim>\<open>waiting_threads_list::link\<close> has no test of a zero header.  When the
  header is part of a ring (construction has run) both header pointers are present,
  and \<^verbatim>\<open>link\<close> of a detached waiting node returns a store: no pointer it reads is
  null and no member is read from the header.  On the empty list the header is its
  own tail and reading the priority through it would be a read of a member the header
  does not have; \<^verbatim>\<open>empty ()\<close> is tested first and \<^verbatim>\<open>link\<close> succeeds.  On a zero
  header the same call dereferences the null tail in \<^verbatim>\<open>insert_after\<close>, where
  \<^verbatim>\<open>ready_threads_list::link\<close>, which clears the header first, succeeds.
\<close>

theorem waiting_link_needs_constructed_header:
  "(dlist s h xs \<and> (\<forall>x\<in>set (n # xs). is_waiting_node s x) \<and> detached s n \<and>
      n \<notin> set (h # xs) \<longrightarrow>
      get_prev s h \<noteq> None \<and> get_next s h \<noteq> None \<and>
      (\<exists>s'. waiting_threads_list_link s h n = Some (Inr s') \<and>
            dlist s' h (priority_insert (prio_of s) n xs))) \<and>
   (dlist s h [] \<and> \<not> is_waiting_node s h \<and> is_waiting_node s n \<and> detached s n \<and> n \<noteq> h \<longrightarrow>
      node_sched_prio s (tail s h) = Inl BadCast \<and>
      (\<exists>s'. waiting_threads_list_link s h n = Some (Inr s') \<and> dlist s' h [n])) \<and>
   (get_prev s h = None \<and> get_next s h = None \<and> is_waiting_node s n \<and> detached s n \<and>
      n \<noteq> h \<longrightarrow>
      waiting_threads_list_link s h n = Some (Inl NullDeref) \<and>
      (\<exists>s'. ready_threads_list_link s h n = Some (Inr s') \<and> dlist s' h [n]))"
proof (intro conjI impI)
  assume a: "dlist s h xs \<and> (\<forall>x\<in>set (n # xs). is_waiting_node s x) \<and> detached s n \<and>
      n \<notin> set (h # xs)"
  then have dl: "dlist s h xs" by simp
  from dlist_tail [OF dl] show "get_prev s h \<noteq> None" by simp
  from dlist_head [OF dl] show "get_next s h \<noteq> None" by simp
  from a waiting_link_step [of s h xs n]
  show "\<exists>s'. waiting_threads_list_link s h n = Some (Inr s') \<and>
            dlist s' h (priority_insert (prio_of s) n xs)" by blast
next
  assume a: "dlist s h [] \<and> \<not> is_waiting_node s h \<and> is_waiting_node s n \<and> detached s n \<and> n \<noteq> h"
  then have dl: "dlist s h []" by simp
  from dlist_tail [OF dl] a show "node_sched_prio s (tail s h) = Inl BadCast"
    by (simp add: tail_def node_sched_prio_def node_thread_def is_waiting_node_def
          split: object.splits)
  from a waiting_link_step [of s h "[]" n]
  show "\<exists>s'. waiting_threads_list_link s h n = Some (Inr s') \<and> dlist s' h [n]"
    by (auto simp: priority_insert_def)
next
  assume a: "get_prev s h = None \<and> get_next s h = None \<and> is_waiting_node s n \<and> detached s n \<and>
      n \<noteq> h"
  then obtain t where t: "obj s n = Waiting_Thread_Node t" by (auto simp: is_waiting_node_obj)
  from a t show "waiting_threads_list_link s h n = Some (Inl NullDeref)"
    by (simp add: waiting_threads_list_link_def node_sched_prio_def node_thread_def tail_def
          empty_list_def insert_after_def detached_def)
  from a t have "dlist (clear s h) h []" "\<forall>x\<in>set (n # []). is_waiting_node (clear s h) x"
    "detached (clear s h) n" "n \<notin> set (h # [])" "obj (clear s h) n = Waiting_Thread_Node t"
    by (simp_all add: dlist_clear is_waiting_node_def detached_def)
  from ready_link_step' [OF this] a
  show "\<exists>s'. ready_threads_list_link s h n = Some (Inr s') \<and> dlist s' h [n]"
    by (auto simp: ready_link_zero priority_insert_def)
qed

theorem waiting_link_needs_constructed_header_witness:
  "dlist waiters6 0 [] \<and> \<not> is_waiting_node waiters6 0 \<and> is_waiting_node waiters6 1 \<and>
   detached waiters6 1 \<and>
   get_prev waiters6 0 \<noteq> None \<and> get_next waiters6 0 \<noteq> None \<and>
   node_sched_prio waiters6 (tail waiters6 0) = Inl BadCast \<and>
   (\<exists>s'. waiting_threads_list_link waiters6 0 1 = Some (Inr s') \<and> dlist s' 0 [1]) \<and>
   get_prev static_boot 0 = None \<and> get_next static_boot 0 = None \<and>
   is_waiting_node static_boot 2 \<and> detached static_boot 2 \<and>
   waiting_threads_list_link static_boot 0 2 = Some (Inl NullDeref) \<and>
   (\<exists>s'. ready_threads_list_link static_boot 0 2 = Some (Inr s') \<and> dlist s' 0 [2])"
proof -
  have d: "dlist waiters6 0 []" by (simp add: dlist_def link_ok_def waiters6_simps)
  have w: "\<not> is_waiting_node waiters6 0" "is_waiting_node waiters6 1" "detached waiters6 1"
    "(1::nat) \<noteq> 0"
    by (simp_all add: waiters6_simps detached_def)
  have z: "get_prev static_boot 0 = None" "get_next static_boot 0 = None"
    "is_waiting_node static_boot 2" "detached static_boot 2" "(2::nat) \<noteq> 0"
    by (simp_all add: static_boot_simps static_boot_waiting detached_def)
  note t1 = waiting_link_needs_constructed_header [of waiters6 0 "[]" 1]
  note t2 = waiting_link_needs_constructed_header [of static_boot 0 "[]" 2]
  from t1 d w have a: "get_prev waiters6 0 \<noteq> None" "get_next waiters6 0 \<noteq> None"
    "node_sched_prio waiters6 (tail waiters6 0) = Inl BadCast"
    "\<exists>s'. waiting_threads_list_link waiters6 0 1 = Some (Inr s') \<and> dlist s' 0 [1]"
    by simp_all
  from t2 z have b: "waiting_threads_list_link static_boot 0 2 = Some (Inl NullDeref)"
    "\<exists>s'. ready_threads_list_link static_boot 0 2 = Some (Inr s') \<and> dlist s' 0 [2]"
    by simp_all
  show ?thesis by (intro conjI d w(1-3) a z(1-4) b)
qed

end
